theory Spec2Isabelle
  imports Main "HOL-Library.Monad_Syntax" "HOL-Library.Sublist"
begin

section \<open>Go values\<close>

text \<open>
  A Go \<^verbatim>\<open>string\<close> is a sequence of bytes; \<^typ>\<open>string\<close> (a list of 8-bit
  characters) is exactly that, and \<^const>\<open>length\<close> is Go's \<^verbatim>\<open>len\<close>.
  A Go \<^verbatim>\<open>int\<close> is modelled as \<^typ>\<open>int\<close>: every integer of the editor is a
  length, an index or a small offset of one, so the 64-bit range is never left.
  A \<^verbatim>\<open>rune\<close> is an \<^typ>\<open>int\<close> as well.
  A run-time panic (index or slice bounds out of range) is the value \<^const>\<open>None\<close>.
\<close>

type_synonym rune = int

definition LF :: char where
  "LF = CHR 0x0A"

definition CR :: char where
  "CR = CHR 0x0D"

text \<open>\<^verbatim>\<open>xs[i]\<close>\<close>

definition at :: "'a list \<Rightarrow> int \<Rightarrow> 'a option" where
  "at xs i = (if 0 \<le> i \<and> i < int (length xs) then Some (xs ! nat i) else None)"

text \<open>\<^verbatim>\<open>xs[lo:hi]\<close>, \<^verbatim>\<open>xs[lo:]\<close> and \<^verbatim>\<open>xs[:hi]\<close>\<close>

definition slice :: "'a list \<Rightarrow> int \<Rightarrow> int \<Rightarrow> 'a list option" where
  "slice xs lo hi =
     (if 0 \<le> lo \<and> lo \<le> hi \<and> hi \<le> int (length xs)
      then Some (take (nat hi - nat lo) (drop (nat lo) xs)) else None)"

definition slice_from :: "'a list \<Rightarrow> int \<Rightarrow> 'a list option" where
  "slice_from xs lo = slice xs lo (int (length xs))"

definition slice_to :: "'a list \<Rightarrow> int \<Rightarrow> 'a list option" where
  "slice_to xs hi = slice xs 0 hi"

text \<open>\<^verbatim>\<open>xs[i] = v\<close>\<close>

definition set_at :: "'a list \<Rightarrow> int \<Rightarrow> 'a \<Rightarrow> 'a list option" where
  "set_at xs i v = (if 0 \<le> i \<and> i < int (length xs) then Some (xs[nat i := v]) else None)"

subsection \<open>Package strings\<close>

text \<open>\<^verbatim>\<open>strings.Split(s, "\n")\<close>: the pieces between the separators, at least one.\<close>

fun Split :: "string \<Rightarrow> string list" where
  "Split [] = [[]]"
| "Split (c # cs) =
     (if c = LF then [] # Split cs
      else (case Split cs of [] \<Rightarrow> [[c]] | p # ps \<Rightarrow> (c # p) # ps))"

text \<open>\<^verbatim>\<open>strings.Join(lines, "\n")\<close>\<close>

fun Join :: "string list \<Rightarrow> string" where
  "Join [] = []"
| "Join [l] = l"
| "Join (l # ls) = l @ LF # Join ls"

text \<open>\<^verbatim>\<open>strings.ReplaceAll(s, "\r\n", "\n")\<close>: left to right, without overlap.\<close>

fun ReplaceAll_CRLF :: "string \<Rightarrow> string" where
  "ReplaceAll_CRLF [] = []"
| "ReplaceAll_CRLF [c] = [c]"
| "ReplaceAll_CRLF (c # d # cs) =
     (if c = CR \<and> d = LF then LF # ReplaceAll_CRLF cs
      else c # ReplaceAll_CRLF (d # cs))"

text \<open>\<^verbatim>\<open>strings.Index(s, sub)\<close>: the first position where \<open>sub\<close> starts, or \<open>-1\<close>.\<close>

fun Index :: "string \<Rightarrow> string \<Rightarrow> int" where
  "Index [] sub = (if sub = [] then 0 else -1)"
| "Index (c # cs) sub =
     (if prefix sub (c # cs) then 0
      else (let i = Index cs sub in if i < 0 then -1 else i + 1))"

subsection \<open>UTF-8\<close>

text \<open>
  \<^verbatim>\<open>[]rune(s)\<close> decodes a string as UTF-8 and \<^verbatim>\<open>string(runes)\<close> encodes. The rules
  are those of the Go language: a first byte selects the length of the sequence and
  the range its second byte must lie in, every further byte lies in \<open>0x80..0xBF\<close>, and
  a byte that starts no valid sequence decodes alone to \<open>U+FFFD\<close>. The masks and
  shifts of the decoder are written arithmetically: \<open>b & 0x3F\<close> is \<open>b mod 64\<close>,
  \<open>x << 6\<close> is \<open>x * 64\<close>, and the fields that are or-ed together are disjoint.
\<close>

definition RuneError :: rune where
  "RuneError = 0xFFFD"

definition byte :: "char \<Rightarrow> nat" where
  "byte c = of_char c"

definition cont :: "nat \<Rightarrow> bool" where
  "cont b \<longleftrightarrow> 0x80 \<le> b \<and> b \<le> 0xBF"

text \<open>Length of the sequence a first byte opens and the range of its second byte.\<close>

definition first_byte :: "nat \<Rightarrow> (nat \<times> nat \<times> nat) option" where
  "first_byte b =
     (if 0xC2 \<le> b \<and> b \<le> 0xDF then Some (2, 0x80, 0xBF)
      else if b = 0xE0 then Some (3, 0xA0, 0xBF)
      else if b = 0xED then Some (3, 0x80, 0x9F)
      else if 0xE1 \<le> b \<and> b \<le> 0xEF then Some (3, 0x80, 0xBF)
      else if b = 0xF0 then Some (4, 0x90, 0xBF)
      else if 0xF1 \<le> b \<and> b \<le> 0xF3 then Some (4, 0x80, 0xBF)
      else if b = 0xF4 then Some (4, 0x80, 0x8F)
      else None)"

text \<open>The first rune of a non-empty string and the number of bytes it takes.\<close>

definition DecodeRune :: "string \<Rightarrow> rune \<times> nat" where
  "DecodeRune s =
     (let b0 = byte (s ! 0) in
      if b0 < 0x80 then (int b0, 1)
      else case first_byte b0 of
        None \<Rightarrow> (RuneError, 1)
      | Some (sz, lo, hi) \<Rightarrow>
          if length s < sz then (RuneError, 1)
          else let b1 = byte (s ! 1) in
          if b1 < lo \<or> hi < b1 then (RuneError, 1)
          else if sz = 2 then (int ((b0 mod 32) * 64 + b1 mod 64), 2)
          else let b2 = byte (s ! 2) in
          if \<not> cont b2 then (RuneError, 1)
          else if sz = 3 then (int ((b0 mod 16) * 4096 + (b1 mod 64) * 64 + b2 mod 64), 3)
          else let b3 = byte (s ! 3) in
          if \<not> cont b3 then (RuneError, 1)
          else (int ((b0 mod 8) * 262144 + (b1 mod 64) * 4096 + (b2 mod 64) * 64 + b3 mod 64), 4))"

text \<open>\<^verbatim>\<open>[]rune(s)\<close>\<close>

function runes :: "string \<Rightarrow> rune list" where
  "runes s = (if s = [] then [] else fst (DecodeRune s) # runes (drop (snd (DecodeRune s)) s))"
  by pat_completeness auto
termination
  by (relation "measure length")
    (auto simp: DecodeRune_def Let_def split: option.splits prod.splits)

declare runes.simps [simp del]

text \<open>\<^verbatim>\<open>string(r)\<close> for one rune\<close>

definition EncodeRune :: "rune \<Rightarrow> string" where
  "EncodeRune r =
     (let n = nat r in
      if r < 0 \<or> 0x10FFFF < r \<or> (0xD800 \<le> r \<and> r \<le> 0xDFFF)
      then [char_of (0xEF::nat), char_of (0xBF::nat), char_of (0xBD::nat)]
      else if r < 0x80 then [char_of n]
      else if r < 0x800 then [char_of (0xC0 + n div 64), char_of (0x80 + n mod 64)]
      else if r < 0x10000
      then [char_of (0xE0 + n div 4096), char_of (0x80 + (n div 64) mod 64),
            char_of (0x80 + n mod 64)]
      else [char_of (0xF0 + n div 262144), char_of (0x80 + (n div 4096) mod 64),
            char_of (0x80 + (n div 64) mod 64), char_of (0x80 + n mod 64)])"

text \<open>\<^verbatim>\<open>string(runes)\<close>\<close>

definition string_of :: "rune list \<Rightarrow> string" where
  "string_of rs = concat (map EncodeRune rs)"

subsection \<open>Package unicode\<close>

text \<open>
  \<^verbatim>\<open>unicode.IsLetter\<close> and \<^verbatim>\<open>unicode.IsDigit\<close> decide the Latin-1 range by a fixed
  table and everything above it by the Unicode range tables, which are a parameter here.
\<close>

record unicode_tables =
  LetterTable :: "rune \<Rightarrow> bool"
  DigitTable :: "rune \<Rightarrow> bool"

definition IsLetter :: "unicode_tables \<Rightarrow> rune \<Rightarrow> bool" where
  "IsLetter U r =
     (if 0 \<le> r \<and> r \<le> 0xFF
      then (0x41 \<le> r \<and> r \<le> 0x5A) \<or> (0x61 \<le> r \<and> r \<le> 0x7A)
         \<or> r = 0xAA \<or> r = 0xB5 \<or> r = 0xBA
         \<or> (0xC0 \<le> r \<and> r \<le> 0xD6) \<or> (0xD8 \<le> r \<and> r \<le> 0xF6) \<or> 0xF8 \<le> r
      else 0 \<le> r \<and> LetterTable U r)"

definition IsDigit :: "unicode_tables \<Rightarrow> rune \<Rightarrow> bool" where
  "IsDigit U r =
     (if r \<le> 0xFF then 0x30 \<le> r \<and> r \<le> 0x39 else DigitTable U r)"

section \<open>Data model\<close>

record selection =
  StartLine :: int
  StartCol :: int
  EndLine :: int
  EndCol :: int
  Active :: bool

text \<open>\<^verbatim>\<open>tcell.Color\<close> and \<^verbatim>\<open>tcell.Style\<close>, as far as the editor sets them.\<close>

datatype tcolor = ColorDefault | ColorRGB int int int

record tstyle =
  Fg :: tcolor
  IsBold :: bool
  IsItalic :: bool

definition StyleDefault :: tstyle where
  "StyleDefault = \<lparr>Fg = ColorDefault, IsBold = False, IsItalic = False\<rparr>"

text \<open>\<^verbatim>\<open>chroma.Colour\<close>, \<^verbatim>\<open>chroma.Trilean\<close>, \<^verbatim>\<open>chroma.StyleEntry\<close>\<close>

datatype colour = Unset | Colour int int int

datatype trilean = Pass | Yes | No

record style_entry =
  EntryColour :: colour
  Bold :: trilean
  Italic :: trilean

text \<open>
  The lexer and the style are external: a lexer maps a text to its tokens (a type tag
  and the token's text) or fails, a style maps a type tag to its entry.
\<close>

type_synonym token = "nat \<times> string"
type_synonym lexer = "string \<Rightarrow> token list option"
type_synonym style = "nat \<Rightarrow> style_entry"

record token_info =
  Col :: int
  Len :: int
  TStyle :: tstyle

record buffer =
  Lines :: "string list"
  Filename :: string
  CursorX :: int
  CursorY :: int
  OffsetX :: int
  OffsetY :: int
  Selection :: selection
  Lexer :: "lexer option"
  Style :: "style option"
  TokenCache :: "token_info list list"
  Dirty :: bool
  DirtyLineStart :: int
  DirtyLineEnd :: int

text \<open>
  Of a pane only the fields \<^verbatim>\<open>ScrollToCursor\<close> reads; its buffer is passed beside it.
\<close>

record pane =
  Width :: int
  Height :: int
  GutterWidth :: int

text \<open>\<^verbatim>\<open>SearchMatch{Line, Col, Len}\<close>; the fields carry an \<open>M\<close> to keep them apart from
  those of \<^typ>\<open>token_info\<close>.\<close>

record search_match =
  MLine :: int
  MCol :: int
  MLen :: int

text \<open>
  The editor with its active pane and that pane's buffer. The screen, the status
  message and the command line are left out: no operation below reads them.
\<close>

record editor =
  ThePane :: pane
  Buf :: buffer
  SearchQuery :: string
  SearchMatches :: "search_match list"
  SearchIndex :: int

text \<open>\<^verbatim>\<open>NewBuffer\<close>; the style \<^verbatim>\<open>styles.Get("monokai")\<close> is a parameter.\<close>

definition NewBuffer :: "style option \<Rightarrow> buffer" where
  "NewBuffer monokai =
     \<lparr>Lines = [[]], Filename = [], CursorX = 0, CursorY = 0, OffsetX = 0, OffsetY = 0,
      Selection = \<lparr>StartLine = 0, StartCol = 0, EndLine = 0, EndCol = 0, Active = False\<rparr>,
      Lexer = None, Style = monokai, TokenCache = [], Dirty = False,
      DirtyLineStart = -1, DirtyLineEnd = -1\<rparr>"

section \<open>Highlight cache\<close>

text \<open>\<^verbatim>\<open>chromaToTcell\<close>\<close>

definition chromaToTcell :: "colour \<Rightarrow> tcolor" where
  "chromaToTcell c = (case c of Unset \<Rightarrow> ColorDefault | Colour r g b \<Rightarrow> ColorRGB r g b)"

text \<open>The style of a token type, as the token loop of \<^verbatim>\<open>UpdateTokenCacheRange\<close>
  computes it.\<close>

definition token_style :: "style \<Rightarrow> nat \<Rightarrow> tstyle" where
  "token_style st ty =
     (let entry = st ty in
      \<lparr>Fg = chromaToTcell (EntryColour entry), IsBold = (Bold entry = Yes),
       IsItalic = (Italic entry = Yes)\<rparr>)"

text \<open>
  The loop that empties the cache of the lines \<open>i..endLine\<close>. It starts at
  \<open>max(0, \<dots>)\<close>, so the index is a natural number.
\<close>

function clear_loop :: "nat \<Rightarrow> int \<Rightarrow> token_info list list \<Rightarrow> token_info list list" where
  "clear_loop i endLine cache =
     (if int i \<le> endLine \<and> i < length cache
      then clear_loop (i + 1) endLine (cache[i := []]) else cache)"
  by pat_completeness auto
termination
  by (relation "measure (\<lambda>(i, endLine, cache). length cache - i)") auto

declare clear_loop.simps [simp del]

text \<open>
  The body of the loop over the parts of one token, after \<open>lineNum\<close> and \<open>col\<close> are
  stepped: the state is the cache, \<open>lineNum\<close> and \<open>col\<close>. \<open>lineNum\<close> starts at
  \<open>max(0, \<dots>)\<close> and only grows.
\<close>

definition add_part ::
  "tstyle \<Rightarrow> string \<Rightarrow> token_info list list \<times> nat \<times> int \<Rightarrow> token_info list list \<times> nat \<times> int" where
  "add_part sty part s =
     (case s of (cache, lineNum, col) \<Rightarrow>
        ((if lineNum < length cache \<and> 0 < length part
          then cache[lineNum := cache ! lineNum @ [\<lparr>Col = col, Len = int (length part), TStyle = sty\<rparr>]]
          else cache),
         lineNum, col + int (length part)))"

fun walk_parts ::
  "tstyle \<Rightarrow> string list \<Rightarrow> token_info list list \<times> nat \<times> int \<Rightarrow> token_info list list \<times> nat \<times> int" where
  "walk_parts sty [] s = s"
| "walk_parts sty (p # ps) s =
     fold (\<lambda>part (cache, lineNum, col). add_part sty part (cache, lineNum + 1, 0)) ps
       (add_part sty p s)"

definition walk_tokens ::
  "style \<Rightarrow> token list \<Rightarrow> token_info list list \<times> nat \<times> int \<Rightarrow> token_info list list \<times> nat \<times> int" where
  "walk_tokens st toks s =
     fold (\<lambda>(ty, val) s. walk_parts (token_style st ty) (Split val) s) toks s"

definition UpdateTokenCacheRange :: "int \<Rightarrow> int \<Rightarrow> buffer \<Rightarrow> buffer option" where
  "UpdateTokenCacheRange startLine0 endLine0 b =
     (case (Lexer b, Style b) of
        (Some lx, Some st) \<Rightarrow>
          (let n = length (Lines b);
               startLine = max 0 (startLine0 - 50);
               endLine = min (int n - 1) (endLine0 + 50);
               cache = (if length (TokenCache b) \<noteq> n
                        then take n (TokenCache b) @ replicate (n - length (TokenCache b)) []
                        else TokenCache b);
               cache = clear_loop (nat startLine) endLine cache
           in do {
             ls \<leftarrow> slice (Lines b) startLine (endLine + 1);
             (case lx (Join ls) of
                None \<Rightarrow> Some (b\<lparr>TokenCache := cache\<rparr>)
              | Some toks \<Rightarrow>
                  Some (b\<lparr>TokenCache := fst (walk_tokens st toks (cache, nat startLine, 0))\<rparr>))
           })
      | _ \<Rightarrow> Some b)"

definition UpdateTokenCache :: "buffer \<Rightarrow> buffer option" where
  "UpdateTokenCache b = UpdateTokenCacheRange 0 (int (length (Lines b)) - 1) b"

definition GetStyleAt :: "buffer \<Rightarrow> int \<Rightarrow> int \<Rightarrow> tstyle option" where
  "GetStyleAt b line col =
     (if line \<ge> int (length (TokenCache b)) then Some StyleDefault
      else do {
        toks \<leftarrow> at (TokenCache b) line;
        Some (case find (\<lambda>t. col \<ge> Col t \<and> col < Col t + Len t) toks of
                Some t \<Rightarrow> TStyle t | None \<Rightarrow> StyleDefault)
      })"

definition MarkDirtyLines :: "int \<Rightarrow> int \<Rightarrow> buffer \<Rightarrow> buffer" where
  "MarkDirtyLines start end b =
     (let b = b\<lparr>Dirty := True\<rparr>;
          b = (if DirtyLineStart b < 0 \<or> start < DirtyLineStart b
               then b\<lparr>DirtyLineStart := start\<rparr> else b)
      in if end > DirtyLineEnd b then b\<lparr>DirtyLineEnd := end\<rparr> else b)"

definition MarkDirty :: "buffer \<Rightarrow> buffer" where
  "MarkDirty b = MarkDirtyLines (CursorY b) (CursorY b) b"

definition RefreshIfDirty :: "buffer \<Rightarrow> buffer option" where
  "RefreshIfDirty b =
     (if Dirty b \<and> DirtyLineStart b \<ge> 0
      then do {
        b \<leftarrow> UpdateTokenCacheRange (DirtyLineStart b) (DirtyLineEnd b) b;
        Some (b\<lparr>Dirty := False, DirtyLineStart := -1, DirtyLineEnd := -1\<rparr>)
      }
      else Some b)"

section \<open>Files\<close>

text \<open>
  The lexer registry of chroma is external: \<^verbatim>\<open>lexers.Match\<close>, \<^verbatim>\<open>lexers.Fallback\<close> and
  \<^verbatim>\<open>chroma.Coalesce\<close> are parameters.
\<close>

record chroma =
  Match :: "string \<Rightarrow> lexer option"
  Fallback :: lexer
  Coalesce :: "lexer \<Rightarrow> lexer"

definition SetupHighlighting :: "chroma \<Rightarrow> buffer \<Rightarrow> buffer option" where
  "SetupHighlighting env b =
     (if Filename b = [] then Some (b\<lparr>Lexer := Some (Fallback env)\<rparr>)
      else (let lx = (case Match env (Filename b) of None \<Rightarrow> Fallback env | Some l \<Rightarrow> l)
            in UpdateTokenCache (b\<lparr>Lexer := Some (Coalesce env lx)\<rparr>)))"

text \<open>What \<^verbatim>\<open>os.ReadFile\<close> answers: the bytes of the file, that there is no such file, or
  another error.\<close>

datatype read_result = Read string | NotExist | ReadFailed

text \<open>\<^verbatim>\<open>LoadFile\<close>: \<^const>\<open>Inl\<close> is the error it returns, with the buffer as it was.\<close>

definition LoadFile :: "chroma \<Rightarrow> read_result \<Rightarrow> string \<Rightarrow> buffer \<Rightarrow> (unit + buffer) option" where
  "LoadFile env rd filename b =
     (case rd of
        NotExist \<Rightarrow> map_option Inr (SetupHighlighting env (b\<lparr>Filename := filename, Lines := [[]]\<rparr>))
      | ReadFailed \<Rightarrow> Some (Inl ())
      | Read data \<Rightarrow>
          (let content = ReplaceAll_CRLF data;
               ls = Split content;
               ls = (if length ls = 0 then [[]] else ls)
           in map_option Inr (SetupHighlighting env (b\<lparr>Filename := filename, Lines := ls\<rparr>))))"

text \<open>\<^verbatim>\<open>SaveFile\<close>: the error for a buffer without a name, or the path and the content
  handed to \<^verbatim>\<open>os.WriteFile\<close>.\<close>

definition SaveFile :: "buffer \<Rightarrow> unit + string \<times> string" where
  "SaveFile b = (if Filename b = [] then Inl () else Inr (Filename b, Join (Lines b)))"

section \<open>Selection\<close>

text \<open>The swap both \<^verbatim>\<open>GetSelectedText\<close> and \<^verbatim>\<open>DeleteSelection\<close> begin with:
  \<open>(startLine, startCol, endLine, endCol)\<close> with the earlier end first.\<close>

definition normalize :: "selection \<Rightarrow> int \<times> int \<times> int \<times> int" where
  "normalize sel =
     (if StartLine sel > EndLine sel \<or> (StartLine sel = EndLine sel \<and> StartCol sel > EndCol sel)
      then (EndLine sel, EndCol sel, StartLine sel, StartCol sel)
      else (StartLine sel, StartCol sel, EndLine sel, EndCol sel))"

text \<open>The loop of \<^verbatim>\<open>GetSelectedText\<close> over the lines \<open>i..endLine\<close> of a selection that
  spans several lines; \<open>acc\<close> is the builder.\<close>

function selected_loop ::
  "string list \<Rightarrow> int \<Rightarrow> int \<Rightarrow> int \<Rightarrow> int \<Rightarrow> int \<Rightarrow> string \<Rightarrow> string option" where
  "selected_loop ls startLine startCol endLine endCol i acc =
     (if i \<le> endLine then
        (case at ls i of
           None \<Rightarrow> None
         | Some line \<Rightarrow>
             if i = startLine then
               (if startCol < int (length line)
                then (case slice_from line startCol of
                        None \<Rightarrow> None
                      | Some t \<Rightarrow>
                          selected_loop ls startLine startCol endLine endCol (i + 1) (acc @ t @ [LF]))
                else selected_loop ls startLine startCol endLine endCol (i + 1) (acc @ [LF]))
             else if i = endLine then
               (let endCol = (if endCol > int (length line) then int (length line) else endCol)
                in case slice_to line endCol of
                     None \<Rightarrow> None
                   | Some h \<Rightarrow>
                       selected_loop ls startLine startCol endLine endCol (i + 1) (acc @ h))
             else selected_loop ls startLine startCol endLine endCol (i + 1) (acc @ line @ [LF]))
      else Some acc)"
  by pat_completeness auto
termination
  by (relation "measure (\<lambda>(ls, startLine, startCol, endLine, endCol, i, acc). nat (endLine + 1 - i))")
    auto

declare selected_loop.simps [simp del]

definition GetSelectedText :: "buffer \<Rightarrow> string option" where
  "GetSelectedText b =
     (if \<not> Active (Selection b) then Some []
      else case normalize (Selection b) of (startLine, startCol, endLine, endCol) \<Rightarrow>
        if startLine = endLine then do {
          line \<leftarrow> at (Lines b) startLine;
          let startCol = (if startCol > int (length line) then int (length line) else startCol);
          let endCol = (if endCol > int (length line) then int (length line) else endCol);
          slice line startCol endCol
        }
        else selected_loop (Lines b) startLine startCol endLine endCol startLine [])"

definition DeleteSelection :: "buffer \<Rightarrow> buffer option" where
  "DeleteSelection b =
     (if \<not> Active (Selection b) then Some b
      else case normalize (Selection b) of (startLine, startCol, endLine, endCol) \<Rightarrow> do {
        sl \<leftarrow> at (Lines b) startLine;
        let startCol = (if startCol > int (length sl) then int (length sl) else startCol);
        el \<leftarrow> at (Lines b) endLine;
        let endCol = (if endCol > int (length el) then int (length el) else endCol);
        beforeStart \<leftarrow> slice_to sl startCol;
        afterEnd \<leftarrow> slice_from el endCol;
        pre \<leftarrow> slice_to (Lines b) startLine;
        post \<leftarrow> slice_from (Lines b) (endLine + 1);
        let newLines = pre @ [beforeStart @ afterEnd] @ post;
        let b = b\<lparr>Lines := newLines, CursorX := startCol, CursorY := startLine,
                   Selection := (Selection b)\<lparr>Active := False\<rparr>\<rparr>;
        Some (MarkDirtyLines startLine (int (length (Lines b)) - 1) b)
      })"

section \<open>Inserting text\<close>

text \<open>\<^verbatim>\<open>InsertText\<close>, on the buffer of the active pane. The loop over the inner lines
  \<open>lines[1 .. len(lines)-2]\<close> appends each of them.\<close>

definition InsertText :: "string \<Rightarrow> buffer \<Rightarrow> buffer option" where
  "InsertText text b =
     (let lines = Split text; startLine = CursorY b in
      if length lines = 1 then do {
        line \<leftarrow> at (Lines b) (CursorY b);
        h \<leftarrow> slice_to line (CursorX b);
        t \<leftarrow> slice_from line (CursorX b);
        ls \<leftarrow> set_at (Lines b) (CursorY b) (h @ text @ t);
        Some (MarkDirty (b\<lparr>Lines := ls, CursorX := CursorX b + int (length text)\<rparr>))
      }
      else do {
        currentLine \<leftarrow> at (Lines b) (CursorY b);
        beforeCursor \<leftarrow> slice_to currentLine (CursorX b);
        afterCursor \<leftarrow> slice_from currentLine (CursorX b);
        first \<leftarrow> at lines 0;
        ls \<leftarrow> set_at (Lines b) (CursorY b) (beforeCursor @ first);
        pre \<leftarrow> slice_to ls (CursorY b + 1);
        let inner = take (length lines - 2) (drop 1 lines);
        lst \<leftarrow> at lines (int (length lines) - 1);
        post \<leftarrow> slice_from ls (CursorY b + 1);
        let newLines = pre @ inner @ [lst @ afterCursor] @ post;
        let b = b\<lparr>Lines := newLines, CursorY := CursorY b + (int (length lines) - 1),
                   CursorX := int (length lst)\<rparr>;
        Some (MarkDirtyLines startLine (int (length (Lines b)) - 1) b)
      })"

section \<open>Word motion\<close>

definition isWordChar :: "unicode_tables \<Rightarrow> rune \<Rightarrow> bool" where
  "isWordChar U ch \<longleftrightarrow> IsLetter U ch \<or> IsDigit U ch \<or> ch = 0x5F"

text \<open>The two loops of \<^verbatim>\<open>MoveWordRight\<close>: advance \<open>x\<close> while it is inside the line and the
  rune under it satisfies \<open>P\<close>.\<close>

function skip_right :: "(rune \<Rightarrow> bool) \<Rightarrow> rune list \<Rightarrow> int \<Rightarrow> int option" where
  "skip_right P rs x =
     (if x < int (length rs) then
        (case at rs x of
           None \<Rightarrow> None
         | Some r \<Rightarrow> if P r then skip_right P rs (x + 1) else Some x)
      else Some x)"
  by pat_completeness auto
termination
  by (relation "measure (\<lambda>(P, rs, x). nat (int (length rs) - x))") (auto simp: at_def)

declare skip_right.simps [simp del]

definition MoveWordRight :: "unicode_tables \<Rightarrow> buffer \<Rightarrow> buffer option" where
  "MoveWordRight U b = do {
     line \<leftarrow> at (Lines b) (CursorY b);
     let rs = runes line;
     if CursorX b \<ge> int (length rs) then
       (if CursorY b < int (length (Lines b)) - 1
        then Some (b\<lparr>CursorY := CursorY b + 1, CursorX := 0\<rparr>) else Some b)
     else do {
       x \<leftarrow> skip_right (isWordChar U) rs (CursorX b);
       x \<leftarrow> skip_right (\<lambda>r. \<not> isWordChar U r) rs x;
       Some (b\<lparr>CursorX := x\<rparr>)
     }
   }"

section \<open>Visual columns and scrolling\<close>

text \<open>The loop of \<^verbatim>\<open>charToVisualCol\<close>, with \<open>tabWidth = 4\<close>; \<open>i\<close> counts up from \<open>0\<close>.\<close>

function visual_loop :: "rune list \<Rightarrow> int \<Rightarrow> nat \<Rightarrow> int \<Rightarrow> int" where
  "visual_loop rs charCol i visualCol =
     (if int i < charCol \<and> i < length rs
      then visual_loop rs charCol (i + 1)
             (if rs ! i = 0x09 then visualCol + (4 - visualCol mod 4) else visualCol + 1)
      else visualCol)"
  by pat_completeness auto
termination
  by (relation "measure (\<lambda>(rs, charCol, i, visualCol). length rs - i)") auto

declare visual_loop.simps [simp del]

definition charToVisualCol :: "buffer \<Rightarrow> int \<Rightarrow> int \<Rightarrow> int option" where
  "charToVisualCol buf line charCol =
     (if line \<ge> int (length (Lines buf)) then Some charCol
      else do {
        l \<leftarrow> at (Lines buf) line;
        Some (visual_loop (runes l) charCol 0 0)
      })"

definition ScrollToCursor :: "pane \<Rightarrow> buffer \<Rightarrow> buffer option" where
  "ScrollToCursor p buf =
     (let buf = (if CursorY buf < OffsetY buf then buf\<lparr>OffsetY := CursorY buf\<rparr>
                 else if CursorY buf \<ge> OffsetY buf + Height p
                 then buf\<lparr>OffsetY := CursorY buf - Height p + 1\<rparr> else buf);
          textAreaWidth = Width p - GutterWidth p;
          textAreaWidth = (if textAreaWidth < 1 then 1 else textAreaWidth)
      in do {
        visualX \<leftarrow> charToVisualCol buf (CursorY buf) (CursorX buf);
        Some (if visualX < OffsetX buf then buf\<lparr>OffsetX := visualX\<rparr>
              else if visualX \<ge> OffsetX buf + textAreaWidth
              then buf\<lparr>OffsetX := visualX - textAreaWidth + 1\<rparr> else buf)
      })"

section \<open>Search\<close>

text \<open>The inner loop of \<^verbatim>\<open>ExecuteSearch\<close> on one line: \<open>start\<close> is where the next scan
  begins, \<open>acc\<close> the matches so far.\<close>

function search_loop ::
  "string \<Rightarrow> string \<Rightarrow> int \<Rightarrow> int \<Rightarrow> search_match list \<Rightarrow> search_match list option" where
  "search_loop line query lineIdx start acc =
     (case slice_from line start of
        None \<Rightarrow> None
      | Some rest \<Rightarrow>
          (let idx = Index rest query in
           if idx = -1 then Some acc
           else search_loop line query lineIdx (start + (idx + 1))
                  (acc @ [\<lparr>MLine = lineIdx, MCol = start + idx, MLen = int (length query)\<rparr>])))"
  by pat_completeness auto
termination
proof (relation "measure (\<lambda>(line, query, lineIdx, start, acc). nat (int (length line) + 1 - start))")
  show "wf (measure (\<lambda>(line, query, lineIdx, start, acc). nat (int (length line) + 1 - start)))"
    by simp
next
  fix line query :: string and lineIdx start :: int and acc :: "search_match list"
    and rest :: string and idx :: int
  assume s: "slice_from line start = Some rest" and i: "idx = Index rest query" "idx \<noteq> - 1"
  have ge: "- 1 \<le> Index r query" for r
    by (induction r) (simp_all add: Let_def)
  from ge [of rest] i have "0 \<le> idx"
    by arith
  moreover from s have "start \<le> int (length line)"
    by (simp add: slice_from_def slice_def split: if_splits)
  ultimately show "((line, query, lineIdx, start + (idx + 1),
      acc @ [\<lparr>MLine = lineIdx, MCol = start + idx, MLen = int (length query)\<rparr>]),
      (line, query, lineIdx, start, acc))
    \<in> measure (\<lambda>(line, query, lineIdx, start, acc). nat (int (length line) + 1 - start))"
    by simp
qed

declare search_loop.simps [simp del]

text \<open>The outer loop, over the lines from \<open>lineIdx\<close> on.\<close>

fun search_lines ::
  "string \<Rightarrow> string list \<Rightarrow> int \<Rightarrow> search_match list \<Rightarrow> search_match list option" where
  "search_lines query [] lineIdx acc = Some acc"
| "search_lines query (line # ls) lineIdx acc =
     (case search_loop line query lineIdx 0 acc of
        None \<Rightarrow> None
      | Some acc' \<Rightarrow> search_lines query ls (lineIdx + 1) acc')"

definition JumpToSearchMatch :: "editor \<Rightarrow> editor option" where
  "JumpToSearchMatch e =
     (if length (SearchMatches e) = 0 then Some e
      else do {
        m \<leftarrow> at (SearchMatches e) (SearchIndex e);
        buf \<leftarrow> ScrollToCursor (ThePane e) ((Buf e)\<lparr>CursorY := MLine m, CursorX := MCol m\<rparr>);
        Some (e\<lparr>Buf := buf\<rparr>)
      })"

definition ExecuteSearch :: "editor \<Rightarrow> editor option" where
  "ExecuteSearch e =
     (if SearchQuery e = [] then Some e
      else do {
        ms \<leftarrow> search_lines (SearchQuery e) (Lines (Buf e)) 0 [];
        let e = e\<lparr>SearchMatches := ms\<rparr>;
        if length (SearchMatches e) > 0 then JumpToSearchMatch (e\<lparr>SearchIndex := 0\<rparr>)
        else Some e
      })"

section \<open>Keys\<close>

text \<open>
  The keys of \<^verbatim>\<open>HandleKey\<close> that change the text, in normal mode. \<open>KeyCtrlV\<close> carries what
  the clipboard holds. The search index is never negative, so Go's \<open>%\<close> is \<open>mod\<close>.
\<close>

datatype key = KeyEnter | KeyBackspace | KeyDelete | KeyTab | KeyRune rune | KeyCtrlV string | KeyCtrlX

definition key_enter :: "pane \<Rightarrow> buffer \<Rightarrow> buffer option" where
  "key_enter p buf = do {
     buf \<leftarrow> (if Active (Selection buf) then DeleteSelection buf else Some buf);
     line \<leftarrow> at (Lines buf) (CursorY buf);
     let rs = runes line;
     let buf = (if CursorX buf > int (length rs) then buf\<lparr>CursorX := int (length rs)\<rparr> else buf);
     h \<leftarrow> slice_to rs (CursorX buf);
     ls \<leftarrow> set_at (Lines buf) (CursorY buf) (string_of h);
     t \<leftarrow> slice_from rs (CursorX buf);
     pre \<leftarrow> slice_to ls (CursorY buf + 1);
     post \<leftarrow> slice_from ls (CursorY buf + 1);
     let buf = buf\<lparr>Lines := pre @ [string_of t] @ post\<rparr>;
     let buf = MarkDirtyLines (CursorY buf) (int (length (Lines buf)) - 1) buf;
     ScrollToCursor p (buf\<lparr>CursorY := CursorY buf + 1, CursorX := 0\<rparr>)
   }"

definition key_backspace :: "pane \<Rightarrow> buffer \<Rightarrow> buffer option" where
  "key_backspace p buf = do {
     buf \<leftarrow>
       (if Active (Selection buf) then DeleteSelection buf
        else if CursorX buf > 0 then do {
          line \<leftarrow> at (Lines buf) (CursorY buf);
          let rs = runes line;
          let buf = (if CursorX buf > int (length rs) then buf\<lparr>CursorX := int (length rs)\<rparr> else buf);
          if CursorX buf > 0 then do {
            h \<leftarrow> slice_to rs (CursorX buf - 1);
            t \<leftarrow> slice_from rs (CursorX buf);
            ls \<leftarrow> set_at (Lines buf) (CursorY buf) (string_of h @ string_of t);
            Some (MarkDirty (buf\<lparr>Lines := ls, CursorX := CursorX buf - 1\<rparr>))
          }
          else Some buf
        }
        else if CursorY buf > 0 then do {
          prev \<leftarrow> at (Lines buf) (CursorY buf - 1);
          let buf = buf\<lparr>CursorX := int (length (runes prev))\<rparr>;
          cur \<leftarrow> at (Lines buf) (CursorY buf);
          ls \<leftarrow> set_at (Lines buf) (CursorY buf - 1) (prev @ cur);
          pre \<leftarrow> slice_to ls (CursorY buf);
          post \<leftarrow> slice_from ls (CursorY buf + 1);
          let buf = buf\<lparr>Lines := pre @ post, CursorY := CursorY buf - 1\<rparr>;
          Some (MarkDirtyLines (CursorY buf) (int (length (Lines buf)) - 1) buf)
        }
        else Some buf);
     ScrollToCursor p buf
   }"

definition key_delete :: "buffer \<Rightarrow> buffer option" where
  "key_delete buf =
     (if Active (Selection buf) then DeleteSelection buf
      else do {
        line \<leftarrow> at (Lines buf) (CursorY buf);
        let rs = runes line;
        if CursorX buf < int (length rs) then do {
          h \<leftarrow> slice_to rs (CursorX buf);
          t \<leftarrow> slice_from rs (CursorX buf + 1);
          ls \<leftarrow> set_at (Lines buf) (CursorY buf) (string_of h @ string_of t);
          Some (MarkDirty (buf\<lparr>Lines := ls\<rparr>))
        }
        else if CursorY buf < int (length (Lines buf)) - 1 then do {
          nxt \<leftarrow> at (Lines buf) (CursorY buf + 1);
          ls \<leftarrow> set_at (Lines buf) (CursorY buf) (line @ nxt);
          pre \<leftarrow> slice_to ls (CursorY buf + 1);
          post \<leftarrow> slice_from ls (CursorY buf + 2);
          let buf = buf\<lparr>Lines := pre @ post\<rparr>;
          Some (MarkDirtyLines (CursorY buf) (int (length (Lines buf)) - 1) buf)
        }
        else Some buf
      })"

definition key_tab :: "buffer \<Rightarrow> buffer option" where
  "key_tab buf = do {
     buf \<leftarrow> (if Active (Selection buf) then DeleteSelection buf else Some buf);
     InsertText [CHR 0x09] buf
   }"

definition key_rune :: "pane \<Rightarrow> rune \<Rightarrow> buffer \<Rightarrow> buffer option" where
  "key_rune p r buf = do {
     buf \<leftarrow> (if Active (Selection buf) then DeleteSelection buf else Some buf);
     line \<leftarrow> at (Lines buf) (CursorY buf);
     let rs = runes line;
     let buf = (if CursorX buf > int (length rs) then buf\<lparr>CursorX := int (length rs)\<rparr> else buf);
     h \<leftarrow> slice_to rs (CursorX buf);
     t \<leftarrow> slice_from rs (CursorX buf);
     ls \<leftarrow> set_at (Lines buf) (CursorY buf) (string_of h @ EncodeRune r @ string_of t);
     ScrollToCursor p (MarkDirty (buf\<lparr>Lines := ls, CursorX := CursorX buf + 1\<rparr>))
   }"

definition key_ctrl_v :: "string \<Rightarrow> buffer \<Rightarrow> buffer option" where
  "key_ctrl_v text buf =
     (if text \<noteq> [] then do {
        buf \<leftarrow> (if Active (Selection buf) then DeleteSelection buf else Some buf);
        InsertText text buf
      }
      else Some buf)"

definition key_ctrl_x :: "buffer \<Rightarrow> buffer option" where
  "key_ctrl_x buf =
     (if Active (Selection buf) then do {
        text \<leftarrow> GetSelectedText buf;
        DeleteSelection buf
      }
      else Some buf)"

definition with_buf :: "editor \<Rightarrow> buffer option \<Rightarrow> editor option" where
  "with_buf e r = map_option (\<lambda>buf. e\<lparr>Buf := buf\<rparr>) r"

fun HandleKey :: "key \<Rightarrow> editor \<Rightarrow> editor option" where
  "HandleKey KeyEnter e = with_buf e (key_enter (ThePane e) (Buf e))"
| "HandleKey KeyBackspace e = with_buf e (key_backspace (ThePane e) (Buf e))"
| "HandleKey KeyDelete e = with_buf e (key_delete (Buf e))"
| "HandleKey KeyTab e = with_buf e (key_tab (Buf e))"
| "HandleKey (KeyRune r) e =
     (if r = 0x6E \<and> length (SearchMatches e) > 0
      then JumpToSearchMatch
             (e\<lparr>SearchIndex := (SearchIndex e + 1) mod int (length (SearchMatches e))\<rparr>)
      else if r = 0x4E \<and> length (SearchMatches e) > 0
      then JumpToSearchMatch
             (e\<lparr>SearchIndex := (SearchIndex e - 1 + int (length (SearchMatches e)))
                                mod int (length (SearchMatches e))\<rparr>)
      else with_buf e (key_rune (ThePane e) r (Buf e)))"
| "HandleKey (KeyCtrlV text) e = with_buf e (key_ctrl_v text (Buf e))"
| "HandleKey KeyCtrlX e = with_buf e (key_ctrl_x (Buf e))"

section \<open>Reference notions\<close>

text \<open>
  The positions of a line at which the query occurs, overlapping ones included, in
  ascending order; the match the search records for one of them; and the matches of a
  whole document, line after line from \<open>lineIdx\<close> on.
\<close>

definition occurrences :: "string \<Rightarrow> string \<Rightarrow> nat list" where
  "occurrences query line = filter (\<lambda>i. prefix query (drop i line)) [0..<length line]"

definition match_at :: "string \<Rightarrow> int \<Rightarrow> nat \<Rightarrow> search_match" where
  "match_at query lineIdx i = \<lparr>MLine = lineIdx, MCol = int i, MLen = int (length query)\<rparr>"

fun occurrences_lines :: "string \<Rightarrow> string list \<Rightarrow> int \<Rightarrow> search_match list" where
  "occurrences_lines query [] lineIdx = []"
| "occurrences_lines query (line # ls) lineIdx =
     map (match_at query lineIdx) (occurrences query line) @ occurrences_lines query ls (lineIdx + 1)"

text \<open>
  Two readings of a word motion to the right from column \<open>x\<close> of a line \<open>rs\<close>, where
  \<open>W\<close> tells the word characters: pass the run of word characters at \<open>x\<close> and then the
  run of other characters after it; or pass the run of other characters first and the
  run of word characters after it.
\<close>

definition word_then_gap :: "(rune \<Rightarrow> bool) \<Rightarrow> rune list \<Rightarrow> nat \<Rightarrow> nat" where
  "word_then_gap W rs x =
     x + length (takeWhile W (drop x rs))
       + length (takeWhile (\<lambda>r. \<not> W r) (dropWhile W (drop x rs)))"

definition gap_then_word :: "(rune \<Rightarrow> bool) \<Rightarrow> rune list \<Rightarrow> nat \<Rightarrow> nat" where
  "gap_then_word W rs x =
     x + length (takeWhile (\<lambda>r. \<not> W r) (drop x rs))
       + length (takeWhile W (dropWhile (\<lambda>r. \<not> W r) (drop x rs)))"

text \<open>
  The text a normalized selection from line \<open>s\<close>, column \<open>cs\<close> to line \<open>e\<close>, column \<open>ce\<close>
  denotes (columns beyond the end of a line count as its end); the lines that are left
  when it is cut out; and the lines that result from inserting the pieces of a text,
  split at its line breaks, at column \<open>x\<close> of line \<open>y\<close>. All columns count bytes.
\<close>

definition selected_text :: "string list \<Rightarrow> nat \<Rightarrow> nat \<Rightarrow> nat \<Rightarrow> nat \<Rightarrow> string" where
  "selected_text ls s cs e ce =
     (if s = e then take (min ce (length (ls ! s)) - min cs (length (ls ! s))) (drop (min cs (length (ls ! s))) (ls ! s))
      else drop cs (ls ! s) @ [LF] @
           concat (map (\<lambda>l. l @ [LF]) (take (e - Suc s) (drop (Suc s) ls))) @ take ce (ls ! e))"

definition deleted_lines :: "string list \<Rightarrow> nat \<Rightarrow> nat \<Rightarrow> nat \<Rightarrow> nat \<Rightarrow> string list" where
  "deleted_lines ls s cs e ce =
     take s ls @ [take cs (ls ! s) @ drop ce (ls ! e)] @ drop (Suc e) ls"

definition inserted_lines :: "string list \<Rightarrow> nat \<Rightarrow> nat \<Rightarrow> string list \<Rightarrow> string list" where
  "inserted_lines ls y x parts =
     (if length parts = 1
      then take y ls @ [take x (ls ! y) @ hd parts @ drop x (ls ! y)] @ drop (Suc y) ls
      else take y ls @ [take x (ls ! y) @ hd parts] @ butlast (tl parts) @
           [last parts @ drop x (ls ! y)] @ drop (Suc y) ls)"

text \<open>
  The text a column counted in runes would be spliced into: after the \<open>c\<close>-th rune.
\<close>

definition rune_splice :: "string \<Rightarrow> nat \<Rightarrow> string \<Rightarrow> string" where
  "rune_splice line c text = string_of (take c (runes line) @ runes text @ drop c (runes line))"

text \<open>
  The cursor is on a line of the buffer and its column is at most the number of
  characters (runes) of that line.
\<close>

definition cursor_in_line :: "buffer \<Rightarrow> bool" where
  "cursor_in_line b \<longleftrightarrow>
     0 \<le> CursorY b \<and> CursorY b < int (length (Lines b)) \<and>
     0 \<le> CursorX b \<and> CursorX b \<le> int (length (runes (Lines b ! nat (CursorY b))))"

text \<open>
  The same with the length of the line counted in bytes, and the selection, when it is
  active, on lines of the buffer with columns that are not negative. These are what the
  operations need in order not to index out of range.
\<close>

definition cursor_ok :: "buffer \<Rightarrow> bool" where
  "cursor_ok b \<longleftrightarrow>
     0 \<le> CursorY b \<and> CursorY b < int (length (Lines b)) \<and>
     0 \<le> CursorX b \<and> CursorX b \<le> int (length (Lines b ! nat (CursorY b)))"

definition selection_ok :: "buffer \<Rightarrow> bool" where
  "selection_ok b \<longleftrightarrow>
     (Active (Selection b) \<longrightarrow>
        0 \<le> StartLine (Selection b) \<and> StartLine (Selection b) < int (length (Lines b)) \<and>
        0 \<le> EndLine (Selection b) \<and> EndLine (Selection b) < int (length (Lines b)) \<and>
        0 \<le> StartCol (Selection b) \<and> 0 \<le> EndCol (Selection b))"

text \<open>No line of the buffer contains a line feed.\<close>

definition lines_ok :: "buffer \<Rightarrow> bool" where
  "lines_ok b \<longleftrightarrow> (\<forall>l \<in> set (Lines b). LF \<notin> set l)"

text \<open>
  The spans the cache holds for a line (none when the cache has no entry for it); the
  window of a refresh, that is the dirty range widened by 50 lines on either side and
  cut to the document; the text of the lines of the window; and the cache brought to
  the length of the document, as \<^verbatim>\<open>UpdateTokenCacheRange\<close> does before it clears.
\<close>

definition cached_spans :: "buffer \<Rightarrow> nat \<Rightarrow> token_info list" where
  "cached_spans b j = (if j < length (TokenCache b) then TokenCache b ! j else [])"

definition window :: "buffer \<Rightarrow> int \<times> int" where
  "window b = (max 0 (DirtyLineStart b - 50),
               min (int (length (Lines b)) - 1) (DirtyLineEnd b + 50))"

definition window_text :: "buffer \<Rightarrow> string" where
  "window_text b =
     (case window b of (lo, hi) \<Rightarrow> Join (take (nat (hi + 1) - nat lo) (drop (nat lo) (Lines b))))"

definition resized :: "nat \<Rightarrow> token_info list list \<Rightarrow> token_info list list" where
  "resized n cache =
     (if length cache \<noteq> n then take n cache @ replicate (n - length cache) [] else cache)"

text \<open>
  A list without the elements at its end that satisfy \<open>P\<close>; the number of lines of a
  text up to its last character that is not a line break; the same for a list of parts.
\<close>

fun strip_end :: "('a \<Rightarrow> bool) \<Rightarrow> 'a list \<Rightarrow> 'a list" where
  "strip_end P [] = []"
| "strip_end P (x # xs) = (if P x \<and> strip_end P xs = [] then [] else x # strip_end P xs)"

definition extent :: "string \<Rightarrow> nat" where
  "extent s = (let t = strip_end (\<lambda>c. c = LF) s in if t = [] then 0 else Suc (count_list t LF))"

definition extent_parts :: "string list \<Rightarrow> nat" where
  "extent_parts ps = length (strip_end (\<lambda>p. p = []) ps)"




section \<open>Example states\<close>

definition example_pane :: pane where
  "example_pane = \<lparr>Width = 80, Height = 24, GutterWidth = 3\<rparr>"

definition example_buffer :: "string list \<Rightarrow> buffer" where
  "example_buffer ls = (NewBuffer None)\<lparr>Lines := ls\<rparr>"

definition example_editor :: "string list \<Rightarrow> string \<Rightarrow> editor" where
  "example_editor ls q =
     \<lparr>ThePane = example_pane, Buf = example_buffer ls, SearchQuery = q,
      SearchMatches = [], SearchIndex = 0\<rparr>"

text \<open>Unicode tables that hold nothing above Latin-1, and a lexer registry whose
  fallback lexer returns the whole text as one token.\<close>

definition no_tables :: unicode_tables where
  "no_tables = \<lparr>LetterTable = (\<lambda>r. False), DigitTable = (\<lambda>r. False)\<rparr>"

definition example_chroma :: chroma where
  "example_chroma = \<lparr>Match = (\<lambda>name. None), Fallback = (\<lambda>text. Some [(0, text)]), Coalesce = (\<lambda>l. l)\<rparr>"

text \<open>The two bytes of \<open>U+00E9\<close>, a letter e with an acute accent.\<close>

definition e_acute :: string where
  "e_acute = [CHR 0xC3, CHR 0xA9]"

text \<open>A selection made backwards, from line 1, column 2 to line 0, column 4.\<close>

definition selection_example :: buffer where
  "selection_example =
     (example_buffer [''foo bar'', ''baz''])
       \<lparr>Selection := \<lparr>StartLine = 1, StartCol = 2, EndLine = 0, EndCol = 4, Active = True\<rparr>\<rparr>"

text \<open>The cursor at the start of the second of two lines.\<close>

definition merge_example :: editor where
  "merge_example =
     (example_editor [''ab'', ''cd''] [])\<lparr>Buf := (example_buffer [''ab'', ''cd''])\<lparr>CursorY := 1\<rparr>\<rparr>"






section \<open>Basic facts\<close>

subsection \<open>Indexing and slicing\<close>

lemma at_Some_iff: "at xs i = Some v \<longleftrightarrow> 0 \<le> i \<and> i < int (length xs) \<and> v = xs ! nat i"
  by (auto simp: at_def)

lemma slice_to_Some_iff:
  "slice_to xs h = Some r \<longleftrightarrow> 0 \<le> h \<and> h \<le> int (length xs) \<and> r = take (nat h) xs"
  by (auto simp: slice_to_def slice_def)

lemma slice_from_Some_iff:
  "slice_from xs l = Some r \<longleftrightarrow> 0 \<le> l \<and> l \<le> int (length xs) \<and> r = drop (nat l) xs"
  by (auto simp: slice_from_def slice_def)

lemma slice_to_in_range: "0 \<le> h \<Longrightarrow> h \<le> int (length xs) \<Longrightarrow> slice_to xs h = Some (take (nat h) xs)"
  by (simp add: slice_to_def slice_def)

lemma slice_from_in_range: "0 \<le> l \<Longrightarrow> l \<le> int (length xs) \<Longrightarrow> slice_from xs l = Some (drop (nat l) xs)"
  by (simp add: slice_from_def slice_def)

lemma set_at_Some_iff:
  "set_at xs i v = Some r \<longleftrightarrow> 0 \<le> i \<and> i < int (length xs) \<and> r = xs[nat i := v]"
  by (auto simp: set_at_def)

lemma upd_take_drop: "y < length ls \<Longrightarrow> ls[y := v] = take y ls @ [v] @ drop (Suc y) ls"
  by (simp add: upd_conv_take_nth_drop)

lemma take_mid_drop:
  assumes "cs \<le> ce"
  shows "take cs l @ take (min ce (length l) - min cs (length l)) (drop (min cs (length l)) l) @ drop ce l = l"
proof -
  have "take (min ce (length l) - min cs (length l)) (drop (min cs (length l)) l) = take (ce - cs) (drop cs l)"
    using assms by (cases "cs \<le> length l"; cases "ce \<le> length l") (simp_all add: min_def)
  moreover have "take (ce - cs) (drop cs l) @ drop ce l = drop cs l"
    using assms by (metis append_take_drop_id drop_drop le_add_diff_inverse2)
  ultimately show ?thesis by simp
qed

lemma lines_reassemble:
  assumes "s < e" "e < length ls"
  shows "take s ls @ [ls ! s] @ take (e - Suc s) (drop (Suc s) ls) @ [ls ! e] @ drop (Suc e) ls = ls"
proof -
  have "drop (Suc s) ls = take (e - Suc s) (drop (Suc s) ls) @ drop e ls"
    using assms by (metis Suc_leI append_take_drop_id drop_drop le_add_diff_inverse2)
  moreover have "drop e ls = ls ! e # drop (Suc e) ls"
    using assms by (simp add: Cons_nth_drop_Suc)
  moreover have "ls = take s ls @ ls ! s # drop (Suc s) ls"
    using assms by (simp add: id_take_nth_drop [symmetric])
  ultimately show ?thesis by (metis append_Cons append_Nil)
qed

subsection \<open>Marking dirty and scrolling leave the text and the cursor alone\<close>

lemma MarkDirtyLines_fields [simp]:
  "Lines (MarkDirtyLines s e b) = Lines b"
  "CursorX (MarkDirtyLines s e b) = CursorX b"
  "CursorY (MarkDirtyLines s e b) = CursorY b"
  "OffsetX (MarkDirtyLines s e b) = OffsetX b"
  "OffsetY (MarkDirtyLines s e b) = OffsetY b"
  "Selection (MarkDirtyLines s e b) = Selection b"
  "TokenCache (MarkDirtyLines s e b) = TokenCache b"
  "Lexer (MarkDirtyLines s e b) = Lexer b"
  "Style (MarkDirtyLines s e b) = Style b"
  by (simp_all add: MarkDirtyLines_def Let_def)

lemma MarkDirty_fields [simp]:
  "Lines (MarkDirty b) = Lines b"
  "CursorX (MarkDirty b) = CursorX b"
  "CursorY (MarkDirty b) = CursorY b"
  "OffsetX (MarkDirty b) = OffsetX b"
  "OffsetY (MarkDirty b) = OffsetY b"
  "Selection (MarkDirty b) = Selection b"
  "TokenCache (MarkDirty b) = TokenCache b"
  "Lexer (MarkDirty b) = Lexer b"
  "Style (MarkDirty b) = Style b"
  by (simp_all add: MarkDirty_def)

lemma charToVisualCol_total: "0 \<le> line \<Longrightarrow> \<exists>v. charToVisualCol buf line c = Some v"
  by (simp add: charToVisualCol_def at_def)

lemma ScrollToCursor_total: "0 \<le> CursorY buf \<Longrightarrow> \<exists>buf'. ScrollToCursor p buf = Some buf'"
  unfolding ScrollToCursor_def Let_def
  by (simp add: charToVisualCol_def at_def)

lemma ScrollToCursor_fields:
  assumes "ScrollToCursor p buf = Some buf'"
  shows "Lines buf' = Lines buf" "CursorX buf' = CursorX buf" "CursorY buf' = CursorY buf"
    "Selection buf' = Selection buf" "TokenCache buf' = TokenCache buf"
    "Dirty buf' = Dirty buf" "DirtyLineStart buf' = DirtyLineStart buf"
    "DirtyLineEnd buf' = DirtyLineEnd buf"
  using assms unfolding ScrollToCursor_def Let_def
  by (auto split: Option.bind_splits if_splits)

subsection \<open>Splitting and joining\<close>

lemma Split_not_Nil [simp]: "Split s \<noteq> []"
  by (induction s) (auto split: list.splits)

lemma Split_no_LF: "l \<in> set (Split s) \<Longrightarrow> LF \<notin> set l"
  by (induction s arbitrary: l) (auto split: list.splits if_splits)

lemma Split_subset: "l \<in> set (Split s) \<Longrightarrow> set l \<subseteq> set s"
proof (induction s arbitrary: l)
  case Nil
  then show ?case by simp
next
  case (Cons c s)
  obtain p ps where ps: "Split s = p # ps"
    by (cases "Split s") auto
  with Cons.IH have "set p \<subseteq> set s" "\<And>q. q \<in> set ps \<Longrightarrow> set q \<subseteq> set s"
    by auto
  with Cons.prems ps show ?case
    by (auto split: if_splits)
qed

lemma Split_no_LF_id: "LF \<notin> set s \<Longrightarrow> Split s = [s]"
  by (induction s) auto

lemma Split_append_LF: "LF \<notin> set l \<Longrightarrow> Split (l @ LF # s) = l # Split s"
  by (induction l) auto

lemma Split_Join: "ls \<noteq> [] \<Longrightarrow> \<forall>l \<in> set ls. LF \<notin> set l \<Longrightarrow> Split (Join ls) = ls"
proof (induction ls rule: Join.induct)
  case 1
  then show ?case by simp
next
  case (2 l)
  then show ?case by (simp add: Split_no_LF_id)
next
  case (3 l v va)
  then show ?case by (simp add: Split_append_LF)
qed

lemma Join_Split: "Join (Split s) = s"
proof (induction s)
  case Nil
  then show ?case by simp
next
  case (Cons c s)
  obtain p ps where ps: "Split s = p # ps"
    by (cases "Split s") auto
  with Cons show ?case
    by (cases ps) auto
qed

lemma Split_single: "Split t = [p] \<Longrightarrow> p = t"
  using Join_Split [of t] by simp

lemma Split_concat_lines:
  "\<forall>l \<in> set ms. LF \<notin> set l \<Longrightarrow> LF \<notin> set t \<Longrightarrow>
   Split (concat (map (\<lambda>l. l @ [LF]) ms) @ t) = ms @ [t]"
  by (induction ms) (simp_all add: Split_no_LF_id Split_append_LF)

lemma Split_length: "length (Split s) = Suc (count_list s LF)"
  by (induction s) (auto split: list.splits)

lemma count_LF_Join:
  "\<forall>l \<in> set ls. LF \<notin> set l \<Longrightarrow> count_list (Join ls) LF = length ls - 1"
  by (induction ls rule: Join.induct) (simp_all add: count_list_0_iff)

subsection \<open>What \<^const>\<open>Index\<close> finds\<close>

lemma Index_ge: "- 1 \<le> Index s q"
  by (induction s) (simp_all add: Let_def)

lemma Index_none: "Index s q = - 1 \<longleftrightarrow> (\<forall>i \<le> length s. \<not> prefix q (drop i s))"
proof (induction s)
  case Nil
  then show ?case by auto
next
  case (Cons c cs)
  have "(\<forall>i \<le> length (c # cs). \<not> prefix q (drop i (c # cs))) \<longleftrightarrow>
        \<not> prefix q (c # cs) \<and> (\<forall>i \<le> length cs. \<not> prefix q (drop i cs))"
    (is "?L \<longleftrightarrow> ?R")
  proof
    assume l: ?L
    have "\<not> prefix q (drop (Suc i) (c # cs))" if "i \<le> length cs" for i
      using l that by (metis Suc_le_mono length_Cons)
    with l show ?R by force
  next
    assume r: ?R
    show ?L
    proof (intro allI impI)
      fix i assume "i \<le> length (c # cs)"
      with r show "\<not> prefix q (drop i (c # cs))"
        by (cases i) auto
    qed
  qed
  with Cons Index_ge [of cs q] show ?case
    by (auto simp: Let_def)
qed

lemma Index_found:
  assumes "Index s q = i" "0 \<le> i"
  shows "prefix q (drop (nat i) s) \<and> nat i \<le> length s \<and> (\<forall>j < nat i. \<not> prefix q (drop j s))"
  using assms
proof (induction s arbitrary: i)
  case Nil
  then show ?case by (auto split: if_splits)
next
  case (Cons c cs)
  show ?case
  proof (cases "prefix q (c # cs)")
    case True
    with Cons.prems show ?thesis by simp
  next
    case False
    with Cons.prems have i: "Index cs q = i - 1" "0 \<le> i - 1"
      by (auto simp: Let_def split: if_splits)
    from Cons.IH [OF this] have ih: "prefix q (drop (nat (i - 1)) cs)" "nat (i - 1) \<le> length cs"
      "\<forall>j < nat (i - 1). \<not> prefix q (drop j cs)" by auto
    from i have n: "nat i = Suc (nat (i - 1))" by simp
    have "\<not> prefix q (drop j (c # cs))" if "j < nat i" for j
      using that False ih(3) n by (cases j) auto
    with ih n show ?thesis by simp
  qed
qed

subsection \<open>Runes and bytes\<close>

lemma DecodeRune_width: "0 < snd (DecodeRune s)"
  by (simp add: DecodeRune_def Let_def split: option.splits prod.splits)

lemma runes_length_le: "length (runes s) \<le> length s"
proof (induction s rule: runes.induct)
  case (1 s)
  show ?case
  proof (cases "s = []")
    case True
    then show ?thesis by (subst runes.simps) simp
  next
    case False
    with "1.IH" have "length (runes (drop (snd (DecodeRune s)) s)) \<le> length s - snd (DecodeRune s)"
      by simp
    moreover from False have "0 < length s" by simp
    ultimately have "Suc (length (runes (drop (snd (DecodeRune s)) s))) \<le> length s"
      using DecodeRune_width [of s] by arith
    with False show ?thesis
      by (subst runes.simps) simp
  qed
qed

lemma EncodeRune_length: "1 \<le> length (EncodeRune r)"
  by (simp add: EncodeRune_def Let_def)

lemma string_of_length_ge: "length rs \<le> length (string_of rs)"
proof (induction rs)
  case Nil
  then show ?case by (simp add: string_of_def)
next
  case (Cons r rs)
  with EncodeRune_length [of r] show ?case by (simp add: string_of_def)
qed

lemma string_of_take_length: "min n (length rs) \<le> length (string_of (take n rs))"
  using string_of_length_ge [of "take n rs"] by simp

lemma clamp_runes:
  assumes "0 \<le> x"
  shows "slice_to rs (if x > int (length rs) then int (length rs) else x) =
           Some (take (nat x) rs)"
    "slice_from rs (if x > int (length rs) then int (length rs) else x) =
           Some (drop (nat x) rs)"
  using assms by (auto simp: slice_to_Some_iff slice_from_Some_iff)

lemma byte_less_256: "byte c < 256"
  by (simp add: byte_def)

lemma byte_char_of: "k < 256 \<Longrightarrow> byte (char_of k) = k"
  by (simp add: byte_def)

lemma char_of_byte: "char_of (byte c) = c"
  by (simp add: byte_def)

lemma EncodeRune_ascii:
  assumes "c \<in> set (EncodeRune r)" "byte c < 0x80"
  shows "r = int (byte c)"
proof -
  have two: "0xC0 + k div 64 < 256 \<and> 0x80 \<le> 0xC0 + k div 64" if "k < 0x800" for k :: nat
    using that by simp
  have three: "0xE0 + k div 4096 < 256 \<and> 0x80 \<le> 0xE0 + k div 4096" if "k < 0x10000" for k :: nat
    using that by simp
  have four: "0xF0 + k div 262144 < 256 \<and> 0x80 \<le> 0xF0 + k div 262144" if "k \<le> 0x10FFFF" for k :: nat
    using that by simp
  have cont: "0x80 + k mod 64 < 256 \<and> 0x80 \<le> 0x80 + k mod 64" for k :: nat
    by (simp add: less_le_trans [OF mod_less_divisor])
  show ?thesis
    using assms two [of "nat r"] three [of "nat r"] four [of "nat r"]
      cont [of "nat r"] cont [of "nat r div 64"] cont [of "nat r div 4096"]
    by (auto simp: EncodeRune_def Let_def byte_char_of split: if_splits)
qed

lemma mod_shift: "b = m * q + k \<Longrightarrow> k < m \<Longrightarrow> b mod m = k" for b :: nat
  by simp

lemma first_byte_Some:
  assumes "first_byte b = Some (sz, lo, hi)"
  shows "0x80 \<le> b" "0x80 \<le> lo" "hi \<le> 0xBF"
    "(sz = 2 \<and> 2 \<le> b mod 32) \<or> (sz = 3 \<and> (1 \<le> b mod 16 \<or> 0xA0 \<le> lo)) \<or>
     (sz = 4 \<and> (1 \<le> b mod 8 \<or> 0x90 \<le> lo))"
proof -
  show "0x80 \<le> b" "0x80 \<le> lo" "hi \<le> 0xBF"
    using assms by (auto simp: first_byte_def split: if_splits)
  consider "0xC2 \<le> b \<and> b \<le> 0xDF \<and> sz = 2" | "b = 0xE0 \<and> sz = 3 \<and> lo = 0xA0"
    | "0xE1 \<le> b \<and> b \<le> 0xEF \<and> sz = 3" | "b = 0xF0 \<and> sz = 4 \<and> lo = 0x90"
    | "0xF1 \<le> b \<and> b \<le> 0xF4 \<and> sz = 4"
    using assms by (auto simp: first_byte_def split: if_splits)
  then show "(sz = 2 \<and> 2 \<le> b mod 32) \<or> (sz = 3 \<and> (1 \<le> b mod 16 \<or> 0xA0 \<le> lo)) \<or>
     (sz = 4 \<and> (1 \<le> b mod 8 \<or> 0x90 \<le> lo))"
  proof cases
    case 1
    then have "2 \<le> b mod 32"
      using mod_shift [of b 32 6 "b - 192"] by auto
    with 1 show ?thesis by simp
  next
    case 2
    then show ?thesis by simp
  next
    case 3
    then have "1 \<le> b mod 16"
      using mod_shift [of b 16 14 "b - 224"] by auto
    with 3 show ?thesis by simp
  next
    case 4
    then show ?thesis by simp
  next
    case 5
    then have "1 \<le> b mod 8"
      using mod_shift [of b 8 30 "b - 240"] by auto
    with 5 show ?thesis by simp
  qed
qed

lemma DecodeRune_ascii:
  assumes "byte (s ! 0) < 0x80"
  shows "DecodeRune s = (int (byte (s ! 0)), 1)"
  using assms by (simp add: DecodeRune_def)

lemma DecodeRune_high:
  assumes "\<not> byte (s ! 0) < 0x80" "s \<noteq> []"
  shows "0x80 \<le> fst (DecodeRune s) \<and> snd (DecodeRune s) \<le> length s \<and>
    (\<forall>i < snd (DecodeRune s). 0x80 \<le> byte (s ! i))"
proof (cases "first_byte (byte (s ! 0))")
  case None
  with assms show ?thesis
    by (cases s) (simp_all add: DecodeRune_def RuneError_def)
next
  case (Some t)
  obtain sz lo hi where t: "t = (sz, lo, hi)" by (cases t) auto
  note f = first_byte_Some [OF Some [unfolded t]]
  let ?b0 = "byte (s ! 0)" and ?b1 = "byte (s ! 1)" and ?b2 = "byte (s ! 2)" and ?b3 = "byte (s ! 3)"
  have err: "0x80 \<le> fst (RuneError, 1::nat) \<and> snd (RuneError, 1::nat) \<le> length s \<and>
      (\<forall>i < snd (RuneError, 1::nat). 0x80 \<le> byte (s ! i))"
    using assms by (cases s) (simp_all add: RuneError_def)
  consider (short) "length s < sz" | (bad1) "\<not> length s < sz" "?b1 < lo \<or> hi < ?b1"
    | (two) "\<not> length s < sz" "\<not> (?b1 < lo \<or> hi < ?b1)" "sz = 2"
    | (bad2) "\<not> length s < sz" "\<not> (?b1 < lo \<or> hi < ?b1)" "sz \<noteq> 2" "\<not> cont ?b2"
    | (three) "\<not> length s < sz" "\<not> (?b1 < lo \<or> hi < ?b1)" "sz \<noteq> 2" "cont ?b2" "sz = 3"
    | (bad3) "\<not> length s < sz" "\<not> (?b1 < lo \<or> hi < ?b1)" "sz \<noteq> 2" "cont ?b2" "sz \<noteq> 3" "\<not> cont ?b3"
    | (four) "\<not> length s < sz" "\<not> (?b1 < lo \<or> hi < ?b1)" "sz \<noteq> 2" "cont ?b2" "sz \<noteq> 3" "cont ?b3"
    by blast
  then show ?thesis
  proof cases
    case short
    with assms Some t err show ?thesis by (simp add: DecodeRune_def)
  next
    case bad1
    with assms Some t err show ?thesis by (simp add: DecodeRune_def)
  next
    case two
    then have d: "DecodeRune s = (int ((?b0 mod 32) * 64 + ?b1 mod 64), 2)"
      using assms Some t by (simp add: DecodeRune_def)
    from f(4) two have "2 \<le> ?b0 mod 32" by simp
    then have "128 \<le> (?b0 mod 32) * 64 + ?b1 mod 64" by simp
    moreover have "0x80 \<le> byte (s ! i)" if "i < 2" for i
    proof -
      from that consider "i = 0" | "i = 1" by arith
      then show ?thesis using assms f(2) two by cases auto
    qed
    ultimately show ?thesis using two by (simp add: d)
  next
    case bad2
    with assms Some t err show ?thesis by (simp add: DecodeRune_def)
  next
    case three
    then have d: "DecodeRune s = (int ((?b0 mod 16) * 4096 + (?b1 mod 64) * 64 + ?b2 mod 64), 3)"
      using assms Some t by (simp add: DecodeRune_def)
    from f(4) three have "1 \<le> ?b0 mod 16 \<or> 0xA0 \<le> lo" by simp
    moreover have "32 \<le> ?b1 mod 64" if "0xA0 \<le> lo"
    proof -
      from that three f have "0xA0 \<le> ?b1" "?b1 \<le> 0xBF" by simp_all
      then show ?thesis
        using mod_shift [of ?b1 64 2 "?b1 - 128"] by simp
    qed
    ultimately have "128 \<le> (?b0 mod 16) * 4096 + (?b1 mod 64) * 64 + ?b2 mod 64" by auto
    moreover have "0x80 \<le> byte (s ! i)" if "i < 3" for i
    proof -
      from that consider "i = 0" | "i = 1" | "i = 2" by arith
      then show ?thesis using assms f(2) three by cases (auto simp: cont_def)
    qed
    ultimately show ?thesis using three by (simp add: d)
  next
    case bad3
    with assms Some t err show ?thesis by (simp add: DecodeRune_def)
  next
    case four
    with f(4) have sz: "sz = 4" by auto
    then have d: "DecodeRune s =
        (int ((?b0 mod 8) * 262144 + (?b1 mod 64) * 4096 + (?b2 mod 64) * 64 + ?b3 mod 64), 4)"
      using assms Some t four by (simp add: DecodeRune_def)
    from f(4) sz have "1 \<le> ?b0 mod 8 \<or> 0x90 \<le> lo" by simp
    moreover have "16 \<le> ?b1 mod 64" if "0x90 \<le> lo"
    proof -
      from that four f have "0x90 \<le> ?b1" "?b1 \<le> 0xBF" by simp_all
      then show ?thesis
        using mod_shift [of ?b1 64 2 "?b1 - 128"] by simp
    qed
    ultimately have "128 \<le> (?b0 mod 8) * 262144 + (?b1 mod 64) * 4096 + (?b2 mod 64) * 64 + ?b3 mod 64"
      by auto
    moreover have "0x80 \<le> byte (s ! i)" if "i < 4" for i
    proof -
      from that consider "i = 0" | "i = 1" | "i = 2" | "i = 3" by arith
      then show ?thesis using assms f(2) four by cases (auto simp: cont_def)
    qed
    ultimately show ?thesis using four sz by (simp add: d)
  qed
qed

text \<open>A rune below \<open>0x80\<close> occurs among the runes of a string exactly when the byte
  with that value occurs in the string.\<close>

lemma runes_ascii_iff:
  assumes "a < 0x80"
  shows "int a \<in> set (runes s) \<longleftrightarrow> char_of a \<in> set s"
proof (induction s rule: runes.induct)
  case (1 s)
  show ?case
  proof (cases "s = []")
    case True
    then show ?thesis by (subst runes.simps) simp
  next
    case False
    let ?r = "fst (DecodeRune s)" and ?w = "snd (DecodeRune s)"
    have r: "runes s = ?r # runes (drop ?w s)"
      using False by (subst runes.simps) simp
    have ih: "int a \<in> set (runes (drop ?w s)) \<longleftrightarrow> char_of a \<in> set (drop ?w s)"
      using "1.IH" False by simp
    have a: "byte (char_of a) = a" using assms by (simp add: byte_char_of)
    have hd: "int a = ?r \<longleftrightarrow> char_of a \<in> set (take ?w s)"
    proof (cases "byte (s ! 0) < 0x80")
      case True
      then have d: "DecodeRune s = (int (byte (s ! 0)), 1)" by (rule DecodeRune_ascii)
      from False have t: "take 1 s = [s ! 0]" by (cases s) simp_all
      have "a = byte (s ! 0) \<longleftrightarrow> char_of a = s ! 0"
        using a char_of_byte [of "s ! 0"] by metis
      with t show ?thesis by (simp add: d)
    next
      case high: False
      note h = DecodeRune_high [OF high False]
      from h assms have "int a \<noteq> ?r" by simp
      moreover have "char_of a \<notin> set (take ?w s)"
      proof
        assume "char_of a \<in> set (take ?w s)"
        then obtain i where "i < length (take ?w s)" "take ?w s ! i = char_of a"
          by (auto simp: in_set_conv_nth)
        then have "i < ?w" "s ! i = char_of a" by simp_all
        with h have "0x80 \<le> byte (char_of a)" by metis
        with a assms show False by simp
      qed
      ultimately show ?thesis by simp
    qed
    have "set s = set (take ?w s) \<union> set (drop ?w s)"
      by (metis append_take_drop_id set_append)
    with r ih hd show ?thesis by auto
  qed
qed

lemma tab_rune_iff: "0x09 \<in> set (runes s) \<longleftrightarrow> CHR 0x09 \<in> set s"
proof -
  have "char_of (9 :: nat) = CHR 0x09" by code_simp
  with runes_ascii_iff [of 9 s] show ?thesis by simp
qed

lemma LF_byte: "byte LF = 10" "char_of (10 :: nat) = LF"
  unfolding LF_def byte_def by simp code_simp

lemma string_of_no_LF: "10 \<notin> set rs \<Longrightarrow> LF \<notin> set (string_of rs)"
proof
  assume rs: "10 \<notin> set rs" and "LF \<in> set (string_of rs)"
  then obtain r where r: "r \<in> set rs" "LF \<in> set (EncodeRune r)"
    by (auto simp: string_of_def)
  from EncodeRune_ascii [OF r(2)] have "r = 10" by (simp add: LF_byte)
  with r rs show False by simp
qed

lemma EncodeRune_no_LF: "r \<noteq> 10 \<Longrightarrow> LF \<notin> set (EncodeRune r)"
  using EncodeRune_ascii [of LF r] by (auto simp: LF_byte)

lemma runes_no_LF: "LF \<notin> set s \<Longrightarrow> 10 \<notin> set (runes s)"
  using runes_ascii_iff [of 10 s] by (simp add: LF_byte)

lemma string_of_slice_no_LF:
  "LF \<notin> set s \<Longrightarrow> LF \<notin> set (string_of (take n (runes s)))"
  "LF \<notin> set s \<Longrightarrow> LF \<notin> set (string_of (drop n (runes s)))"
  using runes_no_LF [of s]
  by (auto intro!: string_of_no_LF dest: in_set_takeD in_set_dropD)

lemma runes_ab: "runes ''ab'' = [0x61, 0x62]"
  by code_simp

lemma runes_foo_bar: "runes ''foo bar'' = [0x66, 0x6F, 0x6F, 0x20, 0x62, 0x61, 0x72]"
  by code_simp

section \<open>Search finds every occurrence\<close>

lemma search_loop_from:
  assumes "query \<noteq> []" "0 \<le> start" "nat start \<le> length line"
  shows "search_loop line query lineIdx start acc =
         Some (acc @ map (match_at query lineIdx)
                 (filter (\<lambda>i. prefix query (drop i line)) [nat start..<length line]))"
  using assms
proof (induction line query lineIdx start acc rule: search_loop.induct)
  case (1 line query lineIdx start acc)
  let ?rest = "drop (nat start) line"
  have sl: "slice_from line start = Some ?rest"
    using "1.prems" by (simp add: slice_from_in_range)
  show ?case
  proof (cases "Index ?rest query = - 1")
    case True
    then have "\<forall>i \<le> length ?rest. \<not> prefix query (drop i ?rest)"
      by (simp add: Index_none)
    then have "\<not> prefix query (drop j line)" if "nat start \<le> j" "j < length line" for j
    proof -
      from that have "j - nat start \<le> length ?rest" by simp
      moreover from that have "drop (j - nat start) ?rest = drop j line" by simp
      ultimately show ?thesis
        using \<open>\<forall>i \<le> length ?rest. \<not> prefix query (drop i ?rest)\<close> by metis
    qed
    then have "filter (\<lambda>i. prefix query (drop i line)) [nat start..<length line] = []"
      by (auto simp: filter_empty_conv)
    with True sl show ?thesis
      by (subst search_loop.simps) simp
  next
    case False
    define idx where "idx = Index ?rest query"
    with False have ne: "idx \<noteq> - 1" by simp
    with idx_def Index_ge [of ?rest query] have idx0: "0 \<le> idx" by arith
    from Index_found [OF idx_def [symmetric] idx0]
    have f: "prefix query (drop (nat idx) ?rest)" "nat idx \<le> length ?rest"
      "\<forall>j < nat idx. \<not> prefix query (drop j ?rest)" by auto
    let ?m = "nat start + nat idx"
    from f(1) have pm: "prefix query (drop ?m line)" by (simp add: add.commute)
    with \<open>query \<noteq> []\<close> have "drop ?m line \<noteq> []" by auto
    then have lt: "?m < length line" by simp
    have none: "\<not> prefix query (drop j line)" if "nat start \<le> j" "j < ?m" for j
    proof -
      from that have "j - nat start < nat idx" by arith
      with f(3) have "\<not> prefix query (drop (j - nat start) ?rest)" by blast
      with that show ?thesis by simp
    qed
    have split: "[nat start..<length line] = [nat start..<?m] @ ?m # [Suc ?m..<length line]"
      using lt by (metis le_add1 less_imp_le_nat upt_add_eq_append upt_conv_Cons
          less_eq_nat.simps(1) le_add_diff_inverse)
    have fe: "filter (\<lambda>i. prefix query (drop i line)) [nat start..<?m] = []"
      using none by (auto simp: filter_empty_conv)
    have filt: "filter (\<lambda>i. prefix query (drop i line)) [nat start..<length line] =
        ?m # filter (\<lambda>i. prefix query (drop i line)) [Suc ?m..<length line]"
      by (subst split) (simp add: fe pm del: upt_Suc)
    have nxt: "nat (start + (idx + 1)) = Suc ?m"
      using "1.prems" idx0 by simp
    have ih: "search_loop line query lineIdx (start + (idx + 1))
        (acc @ [\<lparr>MLine = lineIdx, MCol = start + idx, MLen = int (length query)\<rparr>]) =
      Some ((acc @ [\<lparr>MLine = lineIdx, MCol = start + idx, MLen = int (length query)\<rparr>]) @
        map (match_at query lineIdx)
          (filter (\<lambda>i. prefix query (drop i line)) [nat (start + (idx + 1))..<length line]))"
      using "1.IH" [OF sl idx_def ne] "1.prems" idx0 lt nxt by simp
    have m: "\<lparr>MLine = lineIdx, MCol = start + idx, MLen = int (length query)\<rparr> =
        match_at query lineIdx ?m"
      using "1.prems" idx0 by (simp add: match_at_def)
    show ?thesis
      using sl False ih
      by (subst search_loop.simps) (simp add: idx_def [symmetric] Let_def filt nxt m)
  qed
qed

lemma search_loop_all:
  "query \<noteq> [] \<Longrightarrow> search_loop line query lineIdx 0 acc =
     Some (acc @ map (match_at query lineIdx) (occurrences query line))"
  using search_loop_from [of query 0 line lineIdx acc] by (simp add: occurrences_def)

lemma search_lines_all:
  "query \<noteq> [] \<Longrightarrow> search_lines query ls lineIdx acc = Some (acc @ occurrences_lines query ls lineIdx)"
  by (induction ls arbitrary: lineIdx acc) (simp_all add: search_loop_all)

lemma occurrences_lines_MLine: "m \<in> set (occurrences_lines q ls k) \<Longrightarrow> k \<le> MLine m"
  by (induction ls arbitrary: k) (fastforce simp: match_at_def)+

text \<open>
  C4. A search with a non-empty query completes and records exactly the occurrences of
  the query, line by line in document order and within a line from left to right. Each
  scan resumes one position after the start of the previous match, so occurrences that
  overlap are all found; every match has the length of the query. For the query \<open>ab\<close>
  on the single line \<open>ababab\<close> these are the columns 0, 2 and 4.
\<close>

theorem ExecuteSearch_overlapping:
  assumes "SearchQuery e \<noteq> []"
  shows "\<exists>e'. ExecuteSearch e = Some e' \<and>
           SearchMatches e' = occurrences_lines (SearchQuery e) (Lines (Buf e)) 0"
proof -
  let ?ms = "occurrences_lines (SearchQuery e) (Lines (Buf e)) 0"
  have sl: "search_lines (SearchQuery e) (Lines (Buf e)) 0 [] = Some ?ms"
    using assms by (simp add: search_lines_all)
  show ?thesis
  proof (cases "?ms = []")
    case True
    with sl assms show ?thesis by (simp add: ExecuteSearch_def)
  next
    case False
    then have m0: "at ?ms 0 = Some (?ms ! 0)" by (simp add: at_def)
    from False have "?ms ! 0 \<in> set ?ms" by simp
    then have "0 \<le> MLine (?ms ! 0)" by (rule occurrences_lines_MLine)
    then obtain buf' where
      "ScrollToCursor (ThePane e) ((Buf e)\<lparr>CursorY := MLine (?ms ! 0), CursorX := MCol (?ms ! 0)\<rparr>) = Some buf'"
      using ScrollToCursor_total [of "(Buf e)\<lparr>CursorY := MLine (?ms ! 0), CursorX := MCol (?ms ! 0)\<rparr>"]
      by auto
    with sl assms False m0 show ?thesis
      by (simp add: ExecuteSearch_def JumpToSearchMatch_def)
  qed
qed

theorem ExecuteSearch_overlapping_witness:
  "SearchQuery (example_editor [''ababab''] ''ab'') \<noteq> [] \<and>
   (\<exists>e'. ExecuteSearch (example_editor [''ababab''] ''ab'') = Some e' \<and>
      SearchMatches e' = [\<lparr>MLine = 0, MCol = 0, MLen = 2\<rparr>, \<lparr>MLine = 0, MCol = 2, MLen = 2\<rparr>,
                          \<lparr>MLine = 0, MCol = 4, MLen = 2\<rparr>])"
  using ExecuteSearch_overlapping [of "example_editor [''ababab''] ''ab''"]
  by (simp add: example_editor_def example_buffer_def NewBuffer_def occurrences_def upt_rec match_at_def)

section \<open>An inactive selection\<close>

text \<open>
  C10. When the selection is not active, \<^verbatim>\<open>GetSelectedText\<close> returns the empty string
  and \<^verbatim>\<open>DeleteSelection\<close> returns the buffer as it is: lines, cursor, dirty range and
  every other field.
\<close>

theorem inactive_selection_unchanged:
  "\<not> Active (Selection b) \<Longrightarrow> GetSelectedText b = Some [] \<and> DeleteSelection b = Some b"
  by (simp add: GetSelectedText_def DeleteSelection_def)

theorem inactive_selection_unchanged_witness:
  "\<not> Active (Selection (example_buffer [''foo bar'', ''baz''])) \<and>
   GetSelectedText (example_buffer [''foo bar'', ''baz'']) = Some [] \<and>
   DeleteSelection (example_buffer [''foo bar'', ''baz'']) =
     Some (example_buffer [''foo bar'', ''baz''])"
  using inactive_selection_unchanged [of "example_buffer [''foo bar'', ''baz'']"]
  by (simp add: example_buffer_def NewBuffer_def)

section \<open>Visual columns\<close>

lemma visual_loop_ge: "v \<le> visual_loop rs c i v"
proof (induction rs c i v rule: visual_loop.induct)
  case (1 rs c i v)
  show ?case
  proof (cases "int i < c \<and> i < length rs")
    case True
    have "v mod 4 < 4" by simp
    then have "v \<le> v + (4 - v mod 4)" by linarith
    then have "v \<le> (if rs ! i = 0x09 then v + (4 - v mod 4) else v + 1)"
      by (simp del: pos_mod_bound)
    also have "\<dots> \<le> visual_loop rs c (i + 1) (if rs ! i = 0x09 then v + (4 - v mod 4) else v + 1)"
      using "1.IH" True by simp
    finally show ?thesis
      using True by (subst visual_loop.simps) simp
  next
    case False
    then show ?thesis by (subst visual_loop.simps) auto
  qed
qed

lemma visual_loop_mono: "c1 \<le> c2 \<Longrightarrow> visual_loop rs c1 i v \<le> visual_loop rs c2 i v"
proof (induction rs c1 i v rule: visual_loop.induct)
  case (1 rs c1 i v)
  show ?case
  proof (cases "int i < c1 \<and> i < length rs")
    case True
    with "1.prems" have c2: "int i < c2 \<and> i < length rs" by simp
    from "1.IH" [OF True "1.prems"] show ?thesis
      using True c2
      by (subst visual_loop.simps, subst (2) visual_loop.simps) simp
  next
    case False
    then have "visual_loop rs c1 i v = v" by (subst visual_loop.simps) auto
    with visual_loop_ge [of v rs c2 i] show ?thesis by simp
  qed
qed

lemma visual_loop_no_tab:
  "0x09 \<notin> set rs \<Longrightarrow> visual_loop rs c i v = v + max 0 (min c (int (length rs)) - int i)"
proof (induction rs c i v rule: visual_loop.induct)
  case (1 rs c i v)
  show ?case
  proof (cases "int i < c \<and> i < length rs")
    case True
    with "1.prems" have "rs ! i \<noteq> 0x09" by (metis nth_mem)
    with "1.IH" [OF True "1.prems"] True show ?thesis
      by (subst visual_loop.simps) auto
  next
    case False
    then show ?thesis by (subst visual_loop.simps) auto
  qed
qed

text \<open>
  C7, amended. For a fixed line, \<^verbatim>\<open>charToVisualCol\<close> does not decrease when the
  character column grows, for all columns; and on a line without tab characters it
  returns the character column itself for every column from 0 to the length of the
  line. (Beyond the end of the line the loop stops and the result is the length of the
  line.)
\<close>

theorem charToVisualCol_monotone:
  "0 \<le> line \<Longrightarrow>
   (c1 \<le> c2 \<longrightarrow>
      (\<exists>v1 v2. charToVisualCol buf line c1 = Some v1 \<and> charToVisualCol buf line c2 = Some v2 \<and> v1 \<le> v2)) \<and>
   (line < int (length (Lines buf)) \<and> 0x09 \<notin> set (runes (Lines buf ! nat line)) \<and>
    0 \<le> c \<and> c \<le> int (length (runes (Lines buf ! nat line))) \<longrightarrow>
      charToVisualCol buf line c = Some c)"
  by (auto simp: charToVisualCol_def at_def visual_loop_mono visual_loop_no_tab)

theorem charToVisualCol_monotone_witness:
  "(0::int) \<le> 0 \<and> (1::int) \<le> 2 \<and>
   (\<exists>v1 v2. charToVisualCol (example_buffer [[CHR ''a'', CHR 0x09, CHR ''b'']]) 0 1 = Some v1 \<and>
      charToVisualCol (example_buffer [[CHR ''a'', CHR 0x09, CHR ''b'']]) 0 2 = Some v2 \<and> v1 \<le> v2) \<and>
   0 < int (length (Lines (example_buffer [''ab'']))) \<and>
   0x09 \<notin> set (runes (Lines (example_buffer [''ab'']) ! nat 0)) \<and>
   2 \<le> int (length (runes (Lines (example_buffer [''ab'']) ! nat 0))) \<and>
   charToVisualCol (example_buffer [''ab'']) 0 2 = Some 2"
proof -
  have h: "(0::int) \<le> 0" by simp
  have a: "\<exists>v1 v2. charToVisualCol (example_buffer [[CHR ''a'', CHR 0x09, CHR ''b'']]) 0 1 = Some v1 \<and>
      charToVisualCol (example_buffer [[CHR ''a'', CHR 0x09, CHR ''b'']]) 0 2 = Some v2 \<and> v1 \<le> v2"
    using charToVisualCol_monotone [OF h, of 1 2 "example_buffer [[CHR ''a'', CHR 0x09, CHR ''b'']]"]
    by simp
  have b: "0 < int (length (Lines (example_buffer [''ab''])))"
    "0x09 \<notin> set (runes (Lines (example_buffer [''ab'']) ! nat 0))"
    "2 \<le> int (length (runes (Lines (example_buffer [''ab'']) ! nat 0)))"
    by (simp_all add: example_buffer_def NewBuffer_def runes_ab)
  have c: "charToVisualCol (example_buffer [''ab'']) 0 2 = Some 2"
    using charToVisualCol_monotone [OF h, of _ _ "example_buffer [''ab'']" 2] b by simp
  from a b c show ?thesis by simp
qed

text \<open>
  C7 as stated fails beyond the end of a line: on the line \<open>ab\<close>, which has no tab,
  column 5 is mapped to 2.
\<close>

theorem charToVisualCol_beyond_line_counterexample:
  "0x09 \<notin> set (runes ''ab'') \<and> charToVisualCol (example_buffer [''ab'']) 0 5 = Some 2"
  by (simp add: runes_ab charToVisualCol_def example_buffer_def NewBuffer_def at_def visual_loop_no_tab)

section \<open>Word motion to the right\<close>

lemma skip_right_takeWhile:
  "0 \<le> x \<Longrightarrow> skip_right P rs x = Some (x + int (length (takeWhile P (drop (nat x) rs))))"
proof (induction P rs x rule: skip_right.induct)
  case (1 P rs x)
  show ?case
  proof (cases "x < int (length rs)")
    case True
    with "1.prems" have a: "at rs x = Some (rs ! nat x)" by (simp add: at_def)
    from True "1.prems" have d: "drop (nat x) rs = rs ! nat x # drop (nat (x + 1)) rs"
      by (simp add: Cons_nth_drop_Suc nat_add_distrib)
    show ?thesis
    proof (cases "P (rs ! nat x)")
      case True
      with "1.IH" [OF \<open>x < int (length rs)\<close> a True] "1.prems" a d \<open>x < int (length rs)\<close>
      show ?thesis by (subst skip_right.simps) simp
    next
      case False
      with a d \<open>x < int (length rs)\<close> show ?thesis by (subst skip_right.simps) simp
    qed
  next
    case False
    then show ?thesis by (subst skip_right.simps) simp
  qed
qed

lemma word_foo_bar:
  "map (isWordChar no_tables) [0x66, 0x6F, 0x6F, 0x20, 0x62, 0x61, 0x72] =
     [True, True, True, False, True, True, True]"
  by (simp add: isWordChar_def IsLetter_def IsDigit_def no_tables_def)

text \<open>
  C6, amended. From a cursor inside a line, \<^verbatim>\<open>MoveWordRight\<close> first passes the run of
  word characters at the cursor, if any, and then the run of non-word characters that
  follows, so it stops at the start of the next word. At or beyond the end of a line
  that is not the last it moves to column 0 of the next line, and on the last line it
  stays.
\<close>

theorem MoveWordRight_word_then_gap:
  assumes "0 \<le> CursorY b" "CursorY b < int (length (Lines b))" "0 \<le> CursorX b"
  shows "MoveWordRight U b =
    Some (if CursorX b \<ge> int (length (runes (Lines b ! nat (CursorY b))))
          then (if CursorY b < int (length (Lines b)) - 1
                then b\<lparr>CursorY := CursorY b + 1, CursorX := 0\<rparr> else b)
          else b\<lparr>CursorX := int (word_then_gap (isWordChar U)
                                   (runes (Lines b ! nat (CursorY b))) (nat (CursorX b)))\<rparr>)"
proof -
  let ?rs = "runes (Lines b ! nat (CursorY b))"
  let ?W = "isWordChar U"
  let ?x1 = "CursorX b + int (length (takeWhile ?W (drop (nat (CursorX b)) ?rs)))"
  have l: "at (Lines b) (CursorY b) = Some (Lines b ! nat (CursorY b))"
    using assms by (simp add: at_def)
  have s1: "skip_right ?W ?rs (CursorX b) = Some ?x1"
    using assms by (simp add: skip_right_takeWhile)
  have x1: "0 \<le> ?x1" using assms by simp
  have d: "drop (nat ?x1) ?rs = dropWhile ?W (drop (nat (CursorX b)) ?rs)"
    using assms by (simp add: nat_add_distrib dropWhile_eq_drop add.commute)
  have s2: "skip_right (\<lambda>r. \<not> ?W r) ?rs ?x1 =
      Some (int (word_then_gap ?W ?rs (nat (CursorX b))))"
    using assms by (simp add: skip_right_takeWhile [OF x1] d word_then_gap_def)
  show ?thesis
    using l s1 s2 by (simp add: MoveWordRight_def Let_def)
qed

theorem MoveWordRight_word_then_gap_witness:
  "0 \<le> CursorY (example_buffer [''foo bar'', ''baz'']) \<and>
   CursorY (example_buffer [''foo bar'', ''baz'']) < int (length (Lines (example_buffer [''foo bar'', ''baz'']))) \<and>
   0 \<le> CursorX (example_buffer [''foo bar'', ''baz'']) \<and>
   MoveWordRight no_tables (example_buffer [''foo bar'', ''baz'']) =
     Some ((example_buffer [''foo bar'', ''baz''])\<lparr>CursorX := 4\<rparr>) \<and>
   MoveWordRight no_tables ((example_buffer [''foo bar'', ''baz''])\<lparr>CursorX := 7\<rparr>) =
     Some ((example_buffer [''foo bar'', ''baz''])\<lparr>CursorX := 0, CursorY := 1\<rparr>)"
proof -
  let ?b = "example_buffer [''foo bar'', ''baz'']"
  let ?c = "?b\<lparr>CursorX := 7\<rparr>"
  have h: "0 \<le> CursorY ?b" "CursorY ?b < int (length (Lines ?b))" "0 \<le> CursorX ?b"
    by (simp_all add: example_buffer_def NewBuffer_def)
  have g: "0 \<le> CursorY ?c" "CursorY ?c < int (length (Lines ?c))" "0 \<le> CursorX ?c"
    by (simp_all add: example_buffer_def NewBuffer_def)
  have w: "word_then_gap (isWordChar no_tables) (runes ''foo bar'') 0 = 4"
    using word_foo_bar by (simp add: word_then_gap_def runes_foo_bar)
  have a: "MoveWordRight no_tables ?b = Some (?b\<lparr>CursorX := 4\<rparr>)"
    using MoveWordRight_word_then_gap [OF h, of no_tables] w
    by (simp add: example_buffer_def NewBuffer_def runes_foo_bar)
  have b: "MoveWordRight no_tables ?c = Some (?b\<lparr>CursorX := 0, CursorY := 1\<rparr>)"
    using MoveWordRight_word_then_gap [OF g, of no_tables]
    by (simp add: example_buffer_def NewBuffer_def runes_foo_bar)
  from h a b show ?thesis by simp
qed

text \<open>
  C6 as stated, non-word characters first and the word after them, gives column 3 on
  \<open>foo bar\<close> from column 0; the code moves to column 4.
\<close>

theorem MoveWordRight_order_counterexample:
  "map_option CursorX (MoveWordRight no_tables (example_buffer [''foo bar''])) = Some 4 \<and>
   gap_then_word (isWordChar no_tables) (runes ''foo bar'') 0 = 3"
proof -
  have "skip_right (isWordChar no_tables) (runes ''foo bar'') 0 = Some 3"
    using word_foo_bar by (simp add: skip_right_takeWhile runes_foo_bar)
  moreover have "skip_right (\<lambda>r. \<not> isWordChar no_tables r) (runes ''foo bar'') 3 = Some 4"
    using word_foo_bar by (simp add: skip_right_takeWhile runes_foo_bar)
  moreover have "gap_then_word (isWordChar no_tables) (runes ''foo bar'') 0 = 3"
    using word_foo_bar by (simp add: gap_then_word_def runes_foo_bar)
  ultimately show ?thesis
    by (simp add: MoveWordRight_def example_buffer_def NewBuffer_def at_def runes_foo_bar)
qed

section \<open>Loading and saving\<close>

lemma ReplaceAll_CRLF_no_CR:
  "\<forall>i < length s. s ! i = CR \<longrightarrow> Suc i < length s \<and> s ! Suc i = LF \<Longrightarrow> CR \<notin> set (ReplaceAll_CRLF s)"
proof (induction s rule: ReplaceAll_CRLF.induct)
  case 1
  then show ?case by simp
next
  case (2 c)
  then show ?case by auto
next
  case (3 c d cs)
  show ?case
  proof (cases "c = CR \<and> d = LF")
    case True
    have "\<forall>i < length cs. cs ! i = CR \<longrightarrow> Suc i < length cs \<and> cs ! Suc i = LF"
    proof (intro allI impI)
      fix i assume "i < length cs" "cs ! i = CR"
      with "3.prems" [rule_format, of "Suc (Suc i)"] show "Suc i < length cs \<and> cs ! Suc i = LF"
        by simp
    qed
    with "3.IH"(1) True show ?thesis by (simp add: LF_def CR_def)
  next
    case False
    have tl: "\<forall>i < length (d # cs). (d # cs) ! i = CR \<longrightarrow> Suc i < length (d # cs) \<and> (d # cs) ! Suc i = LF"
    proof (intro allI impI)
      fix i assume "i < length (d # cs)" "(d # cs) ! i = CR"
      with "3.prems" [rule_format, of "Suc i"] show "Suc i < length (d # cs) \<and> (d # cs) ! Suc i = LF"
        by simp
    qed
    from "3.prems" [rule_format, of 0] False have "c \<noteq> CR" by auto
    with "3.IH"(2) [OF False tl] False show ?thesis by auto
  qed
qed

lemma UpdateTokenCacheRange_frame:
  "UpdateTokenCacheRange s e b = Some b' \<Longrightarrow> b' = b\<lparr>TokenCache := TokenCache b'\<rparr>"
  by (auto simp: UpdateTokenCacheRange_def Let_def split: option.splits Option.bind_splits)

lemma UpdateTokenCache_total: "\<exists>b'. UpdateTokenCache b = Some b'"
  by (auto simp: UpdateTokenCache_def UpdateTokenCacheRange_def Let_def slice_def
      split: option.splits)

lemma SetupHighlighting_total: "\<exists>b'. SetupHighlighting env b = Some b'"
  using UpdateTokenCache_total by (simp add: SetupHighlighting_def Let_def)

lemma SetupHighlighting_Lines: "SetupHighlighting env b = Some b' \<Longrightarrow> Lines b' = Lines b"
  by (auto simp: SetupHighlighting_def UpdateTokenCache_def Let_def
      dest!: UpdateTokenCacheRange_frame split: if_splits)
     (metis buffer.select_convs(1) buffer.surjective buffer.update_convs(10) buffer.update_convs(8))+

lemma LoadFile_Read:
  "\<exists>b'. LoadFile env (Read data) filename b = Some (Inr b') \<and>
         Lines b' = Split (ReplaceAll_CRLF data)"
proof -
  let ?b = "b\<lparr>Filename := filename, Lines := Split (ReplaceAll_CRLF data)\<rparr>"
  obtain b' where b': "SetupHighlighting env ?b = Some b'"
    using SetupHighlighting_total by blast
  then have "Lines b' = Split (ReplaceAll_CRLF data)"
    by (simp add: SetupHighlighting_Lines)
  with b' show ?thesis by (simp add: LoadFile_def Let_def)
qed

lemma LoadFile_total: "\<exists>r. LoadFile env rd filename b = Some r"
proof (cases rd)
  case (Read data)
  with LoadFile_Read [of env data filename b] show ?thesis by blast
next
  case NotExist
  obtain b' where "SetupHighlighting env (b\<lparr>Filename := filename, Lines := [[]]\<rparr>) = Some b'"
    using SetupHighlighting_total by blast
  with NotExist show ?thesis by (simp add: LoadFile_def)
next
  case ReadFailed
  then show ?thesis by (simp add: LoadFile_def)
qed

lemma LoadFile_nonempty:
  "LoadFile env rd filename b = Some (Inr b') \<Longrightarrow> 1 \<le> length (Lines b')"
  by (cases rd)
    (auto simp: LoadFile_def Let_def Suc_le_eq Split_not_Nil [symmetric] dest!: SetupHighlighting_Lines)

lemma LoadFile_lines_ok:
  assumes "LoadFile env rd filename b = Some (Inr b')"
  shows "lines_ok b'"
proof (cases rd)
  case (Read data)
  with assms LoadFile_Read [of env data filename b] have "Lines b' = Split (ReplaceAll_CRLF data)"
    by auto
  then show ?thesis by (auto simp: lines_ok_def dest: Split_no_LF)
next
  case NotExist
  with assms show ?thesis
    by (auto simp: LoadFile_def lines_ok_def dest!: SetupHighlighting_Lines)
next
  case ReadFailed
  with assms show ?thesis by (simp add: LoadFile_def)
qed

text \<open>
  C9, amended. Loading replaces every carriage return that is followed by a line feed by
  that line feed and splits at the line feeds; so when every carriage return of the
  file is followed by a line feed, no line of the buffer contains one. Saving writes
  the lines joined by line feeds and nothing after the last line: splitting the saved
  content gives the lines back.
\<close>

theorem LoadFile_SaveFile_format:
  "(\<exists>b'. LoadFile env (Read data) filename b = Some (Inr b') \<and>
          Lines b' = Split (ReplaceAll_CRLF data) \<and>
          ((\<forall>i < length data. data ! i = CR \<longrightarrow> Suc i < length data \<and> data ! Suc i = LF) \<longrightarrow>
           (\<forall>l \<in> set (Lines b'). CR \<notin> set l))) \<and>
   (Filename b \<noteq> [] \<longrightarrow> SaveFile b = Inr (Filename b, Join (Lines b))) \<and>
   (Lines b \<noteq> [] \<and> (\<forall>l \<in> set (Lines b). LF \<notin> set l) \<longrightarrow> Split (Join (Lines b)) = Lines b)"
proof -
  obtain b' where b': "LoadFile env (Read data) filename b = Some (Inr b')"
    "Lines b' = Split (ReplaceAll_CRLF data)"
    using LoadFile_Read by blast
  have "\<forall>l \<in> set (Lines b'). CR \<notin> set l"
    if "\<forall>i < length data. data ! i = CR \<longrightarrow> Suc i < length data \<and> data ! Suc i = LF"
    using ReplaceAll_CRLF_no_CR [OF that] b'(2) Split_subset by fastforce
  with b' show ?thesis
    by (auto simp: SaveFile_def Split_Join)
qed

theorem LoadFile_SaveFile_format_witness:
  "[CHR ''a'', CR, LF, CHR ''b''] ! 1 = CR \<and> [CHR ''a'', CR, LF, CHR ''b''] ! 2 = LF \<and>
   CR \<notin> {CHR ''a'', LF, CHR ''b''} \<and>
   (\<exists>b'. LoadFile example_chroma (Read [CHR ''a'', CR, LF, CHR ''b'']) ''f'' (NewBuffer None) = Some (Inr b') \<and>
      Lines b' = [''a'', ''b''] \<and> (\<forall>l \<in> set (Lines b'). CR \<notin> set l)) \<and>
   Filename ((example_buffer [''a'', ''b''])\<lparr>Filename := ''f''\<rparr>) \<noteq> [] \<and>
   SaveFile ((example_buffer [''a'', ''b''])\<lparr>Filename := ''f''\<rparr>) = Inr (''f'', [CHR ''a'', LF, CHR ''b'']) \<and>
   LF \<notin> set (concat [''a'', ''b'']) \<and>
   Split [CHR ''a'', LF, CHR ''b''] = [''a'', ''b'']"
proof -
  let ?data = "[CHR ''a'', CR, LF, CHR ''b'']"
  let ?b = "(example_buffer [''a'', ''b''])\<lparr>Filename := ''f''\<rparr>"
  have h: "\<forall>i < length ?data. ?data ! i = CR \<longrightarrow> Suc i < length ?data \<and> ?data ! Suc i = LF"
    by (simp add: All_less_Suc nth_Cons' CR_def LF_def)
  have d: "?data ! 1 = CR" "?data ! 2 = LF" "CR \<notin> {CHR ''a'', LF, CHR ''b''}"
    by (simp_all add: CR_def LF_def)
  have r: "Split (ReplaceAll_CRLF ?data) = [''a'', ''b'']"
    by (simp add: CR_def LF_def)
  have f: "Filename ?b \<noteq> []" "Lines ?b = [''a'', ''b'']" "\<forall>l \<in> set [''a'', ''b'']. LF \<notin> set l"
    by (simp_all add: example_buffer_def LF_def)
  note t = LoadFile_SaveFile_format [where env = example_chroma and data = ?data
      and filename = "''f''" and b = ?b]
  note u = LoadFile_SaveFile_format [where env = example_chroma and data = ?data
      and filename = "''f''" and b = "NewBuffer None"]
  from u h r have l: "\<exists>b'. LoadFile example_chroma (Read ?data) ''f'' (NewBuffer None) = Some (Inr b') \<and>
      Lines b' = [''a'', ''b''] \<and> (\<forall>l \<in> set (Lines b'). CR \<notin> set l)"
    by (metis (no_types, lifting))
  from t f have s: "SaveFile ?b = Inr (''f'', [CHR ''a'', LF, CHR ''b''])"
    "Split [CHR ''a'', LF, CHR ''b''] = [''a'', ''b'']"
    by (simp_all add: example_buffer_def)
  from f(3) have "LF \<notin> set (concat [''a'', ''b''])" by simp
  with d l f s show ?thesis by simp
qed

text \<open>
  C9 as stated fails for a carriage return that no line feed follows: it stays in the
  line.
\<close>

theorem LoadFile_keeps_lone_CR_counterexample:
  "map_option (map_sum (\<lambda>u. u) Lines)
     (LoadFile example_chroma (Read [CHR ''a'', CR, CHR ''b'']) ''f'' (NewBuffer None)) =
   Some (Inr [[CHR ''a'', CR, CHR ''b'']])"
proof -
  obtain b' where "LoadFile example_chroma (Read [CHR ''a'', CR, CHR ''b'']) ''f'' (NewBuffer None) = Some (Inr b')"
    "Lines b' = Split (ReplaceAll_CRLF [CHR ''a'', CR, CHR ''b''])"
    using LoadFile_Read by blast
  then show ?thesis by (simp add: CR_def LF_def)
qed

section \<open>Selected text, deletion and insertion\<close>

lemma normalize_ordered:
  assumes "normalize sel = (sl, sc, el, ec)"
  shows "sl \<le> el" "sl = el \<Longrightarrow> sc \<le> ec"
    "(sl, sc, el, ec) = (StartLine sel, StartCol sel, EndLine sel, EndCol sel) \<or>
     (sl, sc, el, ec) = (EndLine sel, EndCol sel, StartLine sel, StartCol sel)"
  using assms by (auto simp: normalize_def split: if_splits)

lemma selected_loop_past:
  "endLine < i \<Longrightarrow> selected_loop ls startLine startCol endLine endCol i acc = Some acc"
  by (subst selected_loop.simps) simp

lemma selected_loop_last:
  assumes "startLine < endLine" "0 \<le> endLine" "endLine < int (length ls)" "0 \<le> endCol"
  shows "selected_loop ls startLine startCol endLine endCol endLine acc =
    Some (acc @ take (nat endCol) (ls ! nat endLine))"
proof (cases "endCol > int (length (ls ! nat endLine))")
  case True
  with assms show ?thesis
    by (subst selected_loop.simps)
      (simp add: at_def slice_to_def slice_def selected_loop_past)
next
  case False
  with assms show ?thesis
    by (subst selected_loop.simps)
      (simp add: at_def slice_to_def slice_def selected_loop_past)
qed

lemma selected_loop_tail:
  assumes "n = nat (endLine - i)" "startLine < i" "0 \<le> startLine" "i \<le> endLine"
    "endLine < int (length ls)" "0 \<le> endCol"
  shows "selected_loop ls startLine startCol endLine endCol i acc =
    Some (acc @ concat (map (\<lambda>l. l @ [LF]) (take (nat endLine - nat i) (drop (nat i) ls))) @
          take (nat endCol) (ls ! nat endLine))"
  using assms
proof (induction n arbitrary: i acc)
  case 0
  then have "i = endLine" by simp
  with 0 show ?case by (simp add: selected_loop_last)
next
  case (Suc n)
  then have i: "i < endLine" "0 \<le> i" "i < int (length ls)" by simp_all
  then have a: "at ls i = Some (ls ! nat i)" by (simp add: at_def)
  have n: "n = nat (endLine - (i + 1))" using Suc.prems by simp
  have ih: "selected_loop ls startLine startCol endLine endCol (i + 1) (acc @ ls ! nat i @ [LF]) =
    Some ((acc @ ls ! nat i @ [LF]) @
      concat (map (\<lambda>l. l @ [LF]) (take (nat endLine - nat (i + 1)) (drop (nat (i + 1)) ls))) @
      take (nat endCol) (ls ! nat endLine))"
    using Suc.IH [OF n] Suc.prems i by simp
  have d: "take (nat endLine - nat i) (drop (nat i) ls) =
      ls ! nat i # take (nat endLine - nat (i + 1)) (drop (nat (i + 1)) ls)"
  proof -
    have "drop (nat i) ls = ls ! nat i # drop (Suc (nat i)) ls"
      using i by (simp add: Cons_nth_drop_Suc)
    moreover have "nat endLine - nat i = Suc (nat endLine - nat (i + 1))"
      using i by simp
    moreover have "nat (i + 1) = Suc (nat i)" using i by simp
    ultimately show ?thesis by simp
  qed
  show ?case
    using Suc.prems a i ih
    by (subst selected_loop.simps) (simp add: d)
qed

lemma GetSelectedText_active:
  assumes "Active (Selection b)" "normalize (Selection b) = (sl, sc, el, ec)"
    "0 \<le> sl" "el < int (length (Lines b))" "0 \<le> sc" "0 \<le> ec"
  shows "GetSelectedText b = Some (selected_text (Lines b) (nat sl) (nat sc) (nat el) (nat ec))"
proof -
  note ord = normalize_ordered [OF assms(2)]
  let ?L = "Lines b"
  have a: "at ?L sl = Some (?L ! nat sl)"
    using assms ord by (simp add: at_def)
  show ?thesis
  proof (cases "sl = el")
    case True
    with ord have le: "sc \<le> ec" by simp
    have "slice (?L ! nat sl)
        (if sc > int (length (?L ! nat sl)) then int (length (?L ! nat sl)) else sc)
        (if ec > int (length (?L ! nat sl)) then int (length (?L ! nat sl)) else ec) =
      Some (selected_text ?L (nat sl) (nat sc) (nat sl) (nat ec))"
      using assms le
      by (auto simp: slice_def selected_text_def min_def nat_le_iff)
    then show ?thesis
      unfolding GetSelectedText_def Let_def True [symmetric]
      using assms(1,2) a by (simp add: True [symmetric])
  next
    case False
    with ord have lt: "sl < el" by simp
    let ?first = "drop (nat sc) (?L ! nat sl) @ [LF]"
    have tail: "selected_loop ?L sl sc el ec (sl + 1) ?first =
      Some (?first @ concat (map (\<lambda>l. l @ [LF]) (take (nat el - nat (sl + 1)) (drop (nat (sl + 1)) ?L))) @
          take (nat ec) (?L ! nat el))"
      using assms lt by (intro selected_loop_tail [OF refl]) simp_all
    have sf: "sc < int (length (?L ! nat sl)) \<Longrightarrow>
        slice_from (?L ! nat sl) sc = Some (drop (nat sc) (?L ! nat sl))"
      using assms by (simp add: slice_from_Some_iff)
    have "selected_loop ?L sl sc el ec sl [] =
        Some (selected_text ?L (nat sl) (nat sc) (nat el) (nat ec))"
      using a lt assms tail sf
      by (subst selected_loop.simps)
        (auto simp: selected_text_def nat_add_distrib nat_eq_iff)
    with assms False show ?thesis
      by (simp add: GetSelectedText_def)
  qed
qed

lemma DeleteSelection_active:
  assumes "Active (Selection b)" "normalize (Selection b) = (sl, sc, el, ec)"
    "0 \<le> sl" "el < int (length (Lines b))" "0 \<le> sc" "0 \<le> ec"
  shows "\<exists>b'. DeleteSelection b = Some b' \<and>
    Lines b' = deleted_lines (Lines b) (nat sl) (nat sc) (nat el) (nat ec) \<and>
    CursorY b' = sl \<and> CursorX b' = min sc (int (length (Lines b ! nat sl))) \<and>
    \<not> Active (Selection b')"
proof -
  note ord = normalize_ordered [OF assms(2)]
  let ?L = "Lines b"
  let ?sc = "if sc > int (length (?L ! nat sl)) then int (length (?L ! nat sl)) else sc"
  let ?ec = "if ec > int (length (?L ! nat el)) then int (length (?L ! nat el)) else ec"
  have a: "at ?L sl = Some (?L ! nat sl)" "at ?L el = Some (?L ! nat el)"
    using assms ord by (simp_all add: at_def)
  have b: "slice_to (?L ! nat sl) ?sc = Some (take (nat sc) (?L ! nat sl))"
    using assms by (auto simp: slice_to_Some_iff)
  have c: "slice_from (?L ! nat el) ?ec = Some (drop (nat ec) (?L ! nat el))"
    using assms by (auto simp: slice_from_Some_iff)
  have d: "slice_to ?L sl = Some (take (nat sl) ?L)"
    "slice_from ?L (el + 1) = Some (drop (Suc (nat el)) ?L)"
    using assms ord by (auto simp: slice_to_Some_iff slice_from_Some_iff nat_add_distrib)
  show ?thesis
    using assms(1,2) a b c d
    by (simp add: DeleteSelection_def Let_def deleted_lines_def min_def)
qed

lemma InsertText_result:
  assumes "cursor_ok b"
  shows "\<exists>b'. InsertText t b = Some b' \<and>
    Lines b' = inserted_lines (Lines b) (nat (CursorY b)) (nat (CursorX b)) (Split t) \<and>
    CursorY b' = CursorY b + int (length (Split t)) - 1 \<and>
    CursorX b' = (if length (Split t) = 1 then CursorX b else 0) + int (length (last (Split t))) \<and>
    Selection b' = Selection b"
proof -
  let ?L = "Lines b" and ?y = "nat (CursorY b)" and ?x = "nat (CursorX b)"
  let ?l = "?L ! ?y"
  from assms have y: "0 \<le> CursorY b" "CursorY b < int (length ?L)" "?y < length ?L"
    and x: "0 \<le> CursorX b" "CursorX b \<le> int (length ?l)"
    by (auto simp: cursor_ok_def)
  have a: "at ?L (CursorY b) = Some ?l" using y by (simp add: at_def)
  have h: "slice_to ?l (CursorX b) = Some (take ?x ?l)" using x by (simp add: slice_to_Some_iff)
  have t: "slice_from ?l (CursorX b) = Some (drop ?x ?l)" using x by (simp add: slice_from_Some_iff)
  have u: "set_at ?L (CursorY b) v = Some (?L[?y := v])" for v
    using y by (simp add: set_at_def)
  show ?thesis
  proof (cases "length (Split t) = 1")
    case True
    then obtain p where p: "Split t = [p]" by (cases "Split t") auto
    then have "p = t" by (rule Split_single)
    with p True a h t u y show ?thesis
      by (simp add: InsertText_def Let_def inserted_lines_def upd_take_drop)
  next
    case False
    obtain first rest where fr: "Split t = first # rest"
      by (cases "Split t") auto
    with False have rest: "rest \<noteq> []" by auto
    have f: "at (Split t) 0 = Some first" using fr by (simp add: at_def)
    have l: "at (Split t) (int (length (Split t)) - 1) = Some (last rest)"
      using fr rest by (simp add: at_def last_conv_nth)
    have pre: "slice_to (?L[?y := v]) (CursorY b + 1) = Some (take ?y ?L @ [v])" for v
      using y by (simp add: slice_to_Some_iff nat_add_distrib upd_take_drop)
    have post: "slice_from (?L[?y := v]) (CursorY b + 1) = Some (drop (Suc ?y) ?L)" for v
      using y by (simp add: slice_from_Some_iff nat_add_distrib)
    have inner: "take (length (Split t) - 2) (drop 1 (Split t)) = butlast rest"
      using fr by (simp add: butlast_conv_take)
    show ?thesis
      using False a h t u f l pre post inner fr rest
      by (simp add: InsertText_def Let_def inserted_lines_def)
  qed
qed

lemma Split_selected_text:
  assumes "s \<le> e" "e < length ls" "\<forall>l \<in> set ls. LF \<notin> set l"
  shows "Split (selected_text ls s cs e ce) =
    (if s = e then [selected_text ls s cs e ce]
     else drop cs (ls ! s) # take (e - Suc s) (drop (Suc s) ls) @ [take ce (ls ! e)])"
proof (cases "s = e")
  case True
  have "set (selected_text ls s cs s ce) \<subseteq> set (ls ! s)"
    by (auto simp: selected_text_def dest!: in_set_takeD in_set_dropD)
  moreover have "LF \<notin> set (ls ! s)" using assms True by simp
  ultimately have "LF \<notin> set (selected_text ls s cs s ce)" by blast
  with True show ?thesis by (simp add: Split_no_LF_id)
next
  case False
  have s: "LF \<notin> set (drop cs (ls ! s))" and e: "LF \<notin> set (take ce (ls ! e))"
    using assms by (auto dest!: in_set_takeD in_set_dropD)
  have m: "\<forall>l \<in> set (take (e - Suc s) (drop (Suc s) ls)). LF \<notin> set l"
    using assms(3) by (auto dest!: in_set_takeD in_set_dropD)
  have "Split (selected_text ls s cs e ce) =
      drop cs (ls ! s) # Split (concat (map (\<lambda>l. l @ [LF]) (take (e - Suc s) (drop (Suc s) ls))) @ take ce (ls ! e))"
    using False s by (simp add: selected_text_def Split_append_LF)
  with False m e show ?thesis by (simp add: Split_concat_lines)
qed

lemma roundtrip_one_line:
  assumes "s < length ls" "cs \<le> ce" "\<forall>l \<in> set ls. LF \<notin> set l"
  shows "inserted_lines (deleted_lines ls s cs s ce) s (min cs (length (ls ! s)))
           (Split (selected_text ls s cs s ce)) = ls"
proof -
  let ?D = "deleted_lines ls s cs s ce" and ?x = "min cs (length (ls ! s))"
  have Ds: "?D ! s = take cs (ls ! s) @ drop ce (ls ! s)"
    using assms(1) by (simp add: deleted_lines_def nth_append)
  have tk: "take s ?D = take s ls" using assms(1) by (simp add: deleted_lines_def)
  have dr: "drop (Suc s) ?D = drop (Suc s) ls" using assms(1) by (simp add: deleted_lines_def)
  have h: "take ?x (?D ! s) = take cs (ls ! s)" by (simp add: Ds min_def)
  have t: "drop ?x (?D ! s) = drop ce (ls ! s)" by (simp add: Ds min_def)
  have sp: "Split (selected_text ls s cs s ce) = [selected_text ls s cs s ce]"
    using Split_selected_text [of s s ls cs ce] assms by simp
  have "take cs (ls ! s) @ selected_text ls s cs s ce @ drop ce (ls ! s) = ls ! s"
    using take_mid_drop [OF assms(2), of "ls ! s"] by (simp add: selected_text_def)
  then show ?thesis
    using assms(1) by (simp add: inserted_lines_def sp tk dr h t id_take_nth_drop [symmetric])
qed

lemma roundtrip_lines:
  assumes "s \<le> e" "e < length ls" "s = e \<Longrightarrow> cs \<le> ce" "\<forall>l \<in> set ls. LF \<notin> set l"
  shows "inserted_lines (deleted_lines ls s cs e ce) s (min cs (length (ls ! s)))
           (Split (selected_text ls s cs e ce)) = ls"
proof (cases "s = e")
  case True
  with assms roundtrip_one_line [of s ls cs ce] show ?thesis by simp
next
  case False
  with assms have lt: "s < e" by simp
  let ?D = "deleted_lines ls s cs e ce" and ?x = "min cs (length (ls ! s))"
  have s: "s < length ls" using assms by simp
  then have Ds: "?D ! s = take cs (ls ! s) @ drop ce (ls ! e)"
    by (simp add: deleted_lines_def nth_append)
  have tk: "take s ?D = take s ls" using s by (simp add: deleted_lines_def)
  have dr: "drop (Suc s) ?D = drop (Suc e) ls" using s by (simp add: deleted_lines_def)
  have h: "take ?x (?D ! s) = take cs (ls ! s)" by (simp add: Ds min_def)
  have t: "drop ?x (?D ! s) = drop ce (ls ! e)" by (simp add: Ds min_def)
  note sp = Split_selected_text [OF assms(1,2,4), of cs ce]
  let ?mid = "take (e - Suc s) (drop (Suc s) ls)"
  have "inserted_lines ?D s ?x (Split (selected_text ls s cs e ce)) =
    take s ls @ [take cs (ls ! s) @ drop cs (ls ! s)] @ ?mid @
      [take ce (ls ! e) @ drop ce (ls ! e)] @ drop (Suc e) ls"
    using False sp
    by (simp add: inserted_lines_def tk dr h t butlast_append del: append_take_drop_id)
  also have "\<dots> = ls"
    using lines_reassemble [OF lt assms(2)] by simp
  finally show ?thesis .
qed

text \<open>
  C1. For a buffer whose lines contain no line feed and an active selection with both
  ends on lines of the buffer, in either direction: \<^verbatim>\<open>GetSelectedText\<close> returns a text,
  \<^verbatim>\<open>DeleteSelection\<close> leaves the cursor at the low end of the selection (its column cut
  to the length of the line), and \<^verbatim>\<open>InsertText\<close> of the text there restores the lines
  of the buffer exactly.
\<close>

theorem selection_roundtrip:
  assumes "Active (Selection b)"
    and "0 \<le> StartLine (Selection b)" "StartLine (Selection b) < int (length (Lines b))"
    and "0 \<le> EndLine (Selection b)" "EndLine (Selection b) < int (length (Lines b))"
    and "0 \<le> StartCol (Selection b)" "0 \<le> EndCol (Selection b)"
    and "\<forall>l \<in> set (Lines b). LF \<notin> set l"
  shows "\<exists>text b1 b2.
    GetSelectedText b = Some text \<and> DeleteSelection b = Some b1 \<and>
    (case normalize (Selection b) of (loLine, loCol, hiLine, hiCol) \<Rightarrow>
       CursorY b1 = loLine \<and> CursorX b1 = min loCol (int (length (Lines b ! nat loLine)))) \<and>
    InsertText text b1 = Some b2 \<and> Lines b2 = Lines b"
proof -
  obtain sl sc el ec where n: "normalize (Selection b) = (sl, sc, el, ec)"
    by (cases "normalize (Selection b)") auto
  note ord = normalize_ordered [OF n]
  from ord(3) assms have r: "0 \<le> sl" "el < int (length (Lines b))" "0 \<le> sc" "0 \<le> ec"
    by auto
  let ?L = "Lines b" and ?s = "nat sl" and ?e = "nat el" and ?cs = "nat sc" and ?ce = "nat ec"
  let ?text = "selected_text ?L ?s ?cs ?e ?ce"
  have g: "GetSelectedText b = Some ?text"
    using GetSelectedText_active [OF assms(1) n r] .
  obtain b1 where b1: "DeleteSelection b = Some b1"
    "Lines b1 = deleted_lines ?L ?s ?cs ?e ?ce" "CursorY b1 = sl"
    "CursorX b1 = min sc (int (length (?L ! ?s)))"
    using DeleteSelection_active [OF assms(1) n r] by blast
  have len: "?s < length (Lines b1)"
    using r ord by (simp add: b1(2) deleted_lines_def)
  have line: "Lines b1 ! ?s = take ?cs (?L ! ?s) @ drop ?ce (?L ! ?e)"
    using r ord by (simp add: b1(2) deleted_lines_def nth_append)
  have ok: "cursor_ok b1"
    using r len by (auto simp: cursor_ok_def b1(3,4) line min_def)
  obtain b2 where b2: "InsertText ?text b1 = Some b2"
    "Lines b2 = inserted_lines (Lines b1) (nat (CursorY b1)) (nat (CursorX b1)) (Split ?text)"
    using InsertText_result [OF ok, of ?text] by blast
  have x: "nat (CursorX b1) = min ?cs (length (?L ! ?s))"
    using r by (simp add: b1(4) min_def)
  have le: "?s \<le> ?e" "?e < length ?L" using r ord by simp_all
  have cols: "?cs \<le> ?ce" if "?s = ?e"
  proof -
    from that r ord have "sl = el" by simp
    with ord r show ?thesis by simp
  qed
  have "Lines b2 = ?L"
    unfolding b2(2) b1(2,3) x
    using le cols assms(8) by (rule roundtrip_lines)
  with g b1 b2 n show ?thesis by simp
qed

theorem selection_roundtrip_witness:
  "Active (Selection selection_example) \<and>
   0 \<le> StartLine (Selection selection_example) \<and>
   StartLine (Selection selection_example) < int (length (Lines selection_example)) \<and>
   0 \<le> EndLine (Selection selection_example) \<and>
   EndLine (Selection selection_example) < int (length (Lines selection_example)) \<and>
   0 \<le> StartCol (Selection selection_example) \<and> 0 \<le> EndCol (Selection selection_example) \<and>
   LF \<notin> set (concat (Lines selection_example)) \<and>
   GetSelectedText selection_example = Some (''bar'' @ [LF] @ ''ba'') \<and>
   map_option Lines (DeleteSelection selection_example) = Some [''foo z''] \<and>
   (\<exists>text b1 b2.
      GetSelectedText selection_example = Some text \<and>
      DeleteSelection selection_example = Some b1 \<and> CursorY b1 = 0 \<and> CursorX b1 = 4 \<and>
      InsertText text b1 = Some b2 \<and> Lines b2 = [''foo bar'', ''baz''])"
proof -
  have h: "Active (Selection selection_example)"
    "0 \<le> StartLine (Selection selection_example)"
    "StartLine (Selection selection_example) < int (length (Lines selection_example))"
    "0 \<le> EndLine (Selection selection_example)"
    "EndLine (Selection selection_example) < int (length (Lines selection_example))"
    "0 \<le> StartCol (Selection selection_example)" "0 \<le> EndCol (Selection selection_example)"
    "\<forall>l \<in> set (Lines selection_example). LF \<notin> set l"
    by (simp_all add: selection_example_def example_buffer_def NewBuffer_def LF_def)
  have n: "normalize (Selection selection_example) = (0, 4, 1, 2)"
    by (simp add: selection_example_def example_buffer_def NewBuffer_def normalize_def)
  have l: "Lines selection_example = [''foo bar'', ''baz'']"
    by (simp add: selection_example_def example_buffer_def)
  have v: "GetSelectedText selection_example = Some (''bar'' @ [LF] @ ''ba'')"
    "map_option Lines (DeleteSelection selection_example) = Some [''foo z'']"
    by code_simp+
  from selection_roundtrip [OF h] h v show ?thesis
    by (simp add: n l)
qed

section \<open>No operation indexes out of range\<close>

text \<open>
  On a buffer whose cursor is on one of its lines, with a column inside the line counted
  in bytes, and whose selection, if active, is on its lines, every key that changes the
  text returns, and the buffer it returns is such a buffer again. Lines without a line
  feed stay so, unless the key types a line feed.
\<close>

lemma no_LF_update:
  assumes "\<forall>l \<in> set ls. LF \<notin> set l" "LF \<notin> set v"
  shows "\<forall>l \<in> set (ls[i := v]). LF \<notin> set l"
  using assms set_update_subset_insert [of ls i v] by auto

lemma no_LF_take_drop:
  assumes "\<forall>l \<in> set ls. LF \<notin> set l"
  shows "\<forall>l \<in> set (take n ls). LF \<notin> set l" "\<forall>l \<in> set (drop n ls). LF \<notin> set l"
  using assms by (auto dest: in_set_takeD in_set_dropD)

lemma deleted_lines_no_LF:
  assumes "\<forall>l \<in> set ls. LF \<notin> set l" "s < length ls" "e < length ls"
  shows "\<forall>l \<in> set (deleted_lines ls s cs e ce). LF \<notin> set l"
proof -
  from assms have "LF \<notin> set (ls ! s)" "LF \<notin> set (ls ! e)" by simp_all
  then have "LF \<notin> set (take cs (ls ! s) @ drop ce (ls ! e))"
    by (auto dest: in_set_takeD in_set_dropD)
  with no_LF_take_drop [OF assms(1)] show ?thesis
    by (auto simp: deleted_lines_def)
qed

lemma inserted_lines_no_LF:
  assumes "\<forall>l \<in> set ls. LF \<notin> set l" "y < length ls"
  shows "\<forall>l \<in> set (inserted_lines ls y x (Split t)). LF \<notin> set l"
proof -
  obtain p ps where sp: "Split t = p # ps" by (cases "Split t") auto
  have parts: "LF \<notin> set q" if "q \<in> set (p # ps)" for q
    using Split_no_LF [of q t] that sp by simp
  from assms have line: "LF \<notin> set (take x (ls ! y))" "LF \<notin> set (drop x (ls ! y))"
    by (auto dest: in_set_takeD in_set_dropD)
  note td = no_LF_take_drop [OF assms(1)]
  show ?thesis
  proof (cases "ps = []")
    case True
    with sp parts line td show ?thesis
      by (auto simp: inserted_lines_def)
  next
    case False
    then have "last (p # ps) \<in> set (p # ps)" "\<And>q. q \<in> set (butlast ps) \<Longrightarrow> q \<in> set (p # ps)"
      by (auto dest: in_set_butlastD)
    with parts have "LF \<notin> set (last (p # ps))" "\<And>q. q \<in> set (butlast ps) \<Longrightarrow> LF \<notin> set q"
      "LF \<notin> set p"
      by (blast, blast, simp)
    with False sp line td show ?thesis
      by (auto simp: inserted_lines_def)
  qed
qed

lemma lines_ok_MarkDirtyLines [simp]: "lines_ok (MarkDirtyLines s e b) = lines_ok b"
  by (simp add: lines_ok_def)

lemma lines_ok_MarkDirty [simp]: "lines_ok (MarkDirty b) = lines_ok b"
  by (simp add: lines_ok_def)

lemma ScrollToCursor_ok:
  assumes "cursor_ok b"
  shows "\<exists>b'. ScrollToCursor p b = Some b' \<and> cursor_ok b' \<and> Selection b' = Selection b \<and>
    Lines b' = Lines b"
proof -
  from assms have "0 \<le> CursorY b" by (simp add: cursor_ok_def)
  then obtain b' where b': "ScrollToCursor p b = Some b'"
    using ScrollToCursor_total by blast
  from ScrollToCursor_fields [OF this] assms show ?thesis
    by (simp add: b' cursor_ok_def)
qed

lemma scroll_after:
  assumes "f = ScrollToCursor p b2" "cursor_ok b2" "\<not> Active (Selection b2)"
    "lines_ok x \<longrightarrow> lines_ok b2"
  shows "\<exists>y. f = Some y \<and> cursor_ok y \<and> \<not> Active (Selection y) \<and> (lines_ok x \<longrightarrow> lines_ok y)"
  using ScrollToCursor_ok [OF assms(2), of p] assms(1,3,4) by (auto simp: lines_ok_def)

lemma DeleteSelection_ok:
  assumes "Active (Selection b)" "selection_ok b"
  shows "\<exists>b'. DeleteSelection b = Some b' \<and> cursor_ok b' \<and> \<not> Active (Selection b') \<and>
    (lines_ok b \<longrightarrow> lines_ok b')"
proof -
  obtain sl sc el ec where n: "normalize (Selection b) = (sl, sc, el, ec)"
    by (cases "normalize (Selection b)") auto
  note ord = normalize_ordered [OF n]
  from ord(3) assms have r: "0 \<le> sl" "el < int (length (Lines b))" "0 \<le> sc" "0 \<le> ec"
    by (auto simp: selection_ok_def)
  obtain b1 where b1: "DeleteSelection b = Some b1"
    "Lines b1 = deleted_lines (Lines b) (nat sl) (nat sc) (nat el) (nat ec)" "CursorY b1 = sl"
    "CursorX b1 = min sc (int (length (Lines b ! nat sl)))" "\<not> Active (Selection b1)"
    using DeleteSelection_active [OF assms(1) n r] by blast
  have len: "nat sl < length (Lines b1)"
    using r ord by (simp add: b1(2) deleted_lines_def)
  have line: "Lines b1 ! nat sl = take (nat sc) (Lines b ! nat sl) @ drop (nat ec) (Lines b ! nat el)"
    using r ord by (simp add: b1(2) deleted_lines_def nth_append)
  have "cursor_ok b1"
    using r len by (auto simp: cursor_ok_def b1(3,4) line min_def)
  moreover have "lines_ok b1" if "lines_ok b"
    using that r ord deleted_lines_no_LF [of "Lines b" "nat sl" "nat el" "nat sc" "nat ec"]
    by (simp add: lines_ok_def b1(2))
  ultimately show ?thesis using b1 by blast
qed

lemma DeleteSelection_inactive:
  "DeleteSelection b = Some x \<Longrightarrow> Active (Selection b) \<Longrightarrow> \<not> Active (Selection x)"
  by (auto simp: DeleteSelection_def Let_def split: prod.splits Option.bind_splits)

lemma delete_if_active_ok:
  assumes "cursor_ok b" "selection_ok b"
  shows "\<exists>b'. (if Active (Selection b) then DeleteSelection b else Some b) = Some b' \<and>
    cursor_ok b' \<and> \<not> Active (Selection b') \<and> (lines_ok b \<longrightarrow> lines_ok b')"
  using assms DeleteSelection_ok [of b] by auto

lemma InsertText_ok:
  assumes "cursor_ok b"
  shows "\<exists>b'. InsertText t b = Some b' \<and> cursor_ok b' \<and> Selection b' = Selection b \<and>
    (lines_ok b \<longrightarrow> lines_ok b')"
proof -
  let ?L = "Lines b" and ?y = "nat (CursorY b)" and ?x = "nat (CursorX b)"
  from assms have y: "0 \<le> CursorY b" "?y < length ?L"
    and x: "0 \<le> CursorX b" "?x \<le> length (?L ! ?y)"
    by (auto simp: cursor_ok_def)
  obtain b' where b': "InsertText t b = Some b'"
    "Lines b' = inserted_lines ?L ?y ?x (Split t)"
    "CursorY b' = CursorY b + int (length (Split t)) - 1"
    "CursorX b' = (if length (Split t) = 1 then CursorX b else 0) + int (length (last (Split t)))"
    "Selection b' = Selection b"
    using InsertText_result [OF assms, of t] by blast
  have "cursor_ok b'"
  proof (cases "length (Split t) = 1")
    case True
    then obtain p where p: "Split t = [p]" by (cases "Split t") auto
    with True y x show ?thesis
      by (auto simp: cursor_ok_def b' inserted_lines_def nth_append)
  next
    case False
    obtain first rest where fr: "Split t = first # rest"
      by (cases "Split t") auto
    with False have rest: "rest \<noteq> []" by auto
    define k where "k = ?y + length rest"
    have cy: "CursorY b' = int k"
      using y fr by (simp add: b'(3) k_def)
    have cx: "CursorX b' = int (length (last rest))"
      using False fr rest by (simp add: b'(4))
    have "Lines b' = (take ?y ?L @ [take ?x (?L ! ?y) @ first] @ butlast rest) @
        (last rest @ drop ?x (?L ! ?y)) # drop (Suc ?y) ?L"
      using False fr rest by (simp add: b'(2) inserted_lines_def)
    moreover have "length (take ?y ?L @ [take ?x (?L ! ?y) @ first] @ butlast rest) = k"
      using y rest by (simp add: k_def)
    ultimately have nth: "Lines b' ! k = last rest @ drop ?x (?L ! ?y)"
      by (metis nth_append_length)
    have lt: "k < length (Lines b')"
      using False fr rest y by (simp add: b'(2) inserted_lines_def k_def)
    show ?thesis
      unfolding cursor_ok_def cy cx using nth lt by simp
  qed
  moreover have "lines_ok b'" if "lines_ok b"
    using that y inserted_lines_no_LF [of ?L ?y ?x t] by (simp add: lines_ok_def b'(2))
  ultimately show ?thesis using b' by blast
qed

lemma GetSelectedText_ok:
  assumes "Active (Selection b)" "selection_ok b"
  shows "\<exists>t. GetSelectedText b = Some t"
proof -
  obtain sl sc el ec where n: "normalize (Selection b) = (sl, sc, el, ec)"
    by (cases "normalize (Selection b)") auto
  from normalize_ordered(3) [OF n] assms
  have "0 \<le> sl" "el < int (length (Lines b))" "0 \<le> sc" "0 \<le> ec"
    by (auto simp: selection_ok_def)
  from GetSelectedText_active [OF assms(1) n this] show ?thesis by blast
qed

lemma key_rune_inactive:
  assumes "cursor_ok x" "\<not> Active (Selection x)"
  shows "\<exists>y. key_rune p r x = Some y \<and> cursor_ok y \<and> \<not> Active (Selection y) \<and>
    (lines_ok x \<and> r \<noteq> 10 \<longrightarrow> lines_ok y)"
proof -
  let ?L = "Lines x" and ?y = "nat (CursorY x)"
  let ?rs = "runes (?L ! ?y)"
  let ?X = "if CursorX x > int (length ?rs) then int (length ?rs) else CursorX x"
  define new where
    "new = string_of (take (nat (CursorX x)) ?rs) @ EncodeRune r @ string_of (drop (nat (CursorX x)) ?rs)"
  define b2 where "b2 = MarkDirty (x\<lparr>CursorX := ?X, Lines := ?L[?y := new], CursorX := ?X + 1\<rparr>)"
  from assms have c: "0 \<le> CursorY x" "CursorY x < int (length ?L)" "0 \<le> CursorX x"
    by (auto simp: cursor_ok_def)
  have k: "key_rune p r x = ScrollToCursor p b2"
    using assms(2) c clamp_runes [OF c(3), of ?rs]
    by (simp add: key_rune_def Let_def at_def set_at_def b2_def new_def if_distrib [of CursorX]
        cong: if_cong)
  have "min (nat (CursorX x)) (length ?rs) + 1 \<le> length new"
    using string_of_take_length [of "nat (CursorX x)" ?rs] EncodeRune_length [of r]
    by (simp add: new_def)
  then have "?X + 1 \<le> int (length new)"
    using c by (auto simp: min_def split: if_splits)
  then have ok: "cursor_ok b2"
    using c by (simp add: cursor_ok_def b2_def)
  have "lines_ok b2" if "lines_ok x" "r \<noteq> 10"
  proof -
    from that c have "LF \<notin> set (?L ! ?y)" by (simp add: lines_ok_def)
    with that(2) have "LF \<notin> set new"
      by (simp add: new_def string_of_slice_no_LF EncodeRune_no_LF)
    with that(1) show ?thesis
      using no_LF_update [of ?L new ?y] by (simp add: lines_ok_def b2_def)
  qed
  with ScrollToCursor_ok [OF ok, of p] assms(2) show ?thesis
    by (auto simp: k b2_def lines_ok_def)
qed

lemma key_enter_inactive:
  assumes "cursor_ok x" "\<not> Active (Selection x)"
  shows "\<exists>y. key_enter p x = Some y \<and> cursor_ok y \<and> \<not> Active (Selection y) \<and>
    (lines_ok x \<longrightarrow> lines_ok y)"
proof -
  let ?L = "Lines x" and ?y = "nat (CursorY x)"
  let ?rs = "runes (?L ! ?y)"
  let ?X = "if CursorX x > int (length ?rs) then int (length ?rs) else CursorX x"
  let ?L' = "?L[?y := string_of (take (nat (CursorX x)) ?rs)]"
  define new where
    "new = take (Suc ?y) ?L' @ [string_of (drop (nat (CursorX x)) ?rs)] @ drop (Suc ?y) ?L'"
  define b2 where
    "b2 = (MarkDirtyLines (CursorY x) (int (length new) - 1) (x\<lparr>CursorX := ?X, Lines := new\<rparr>))
            \<lparr>CursorY := CursorY x + 1, CursorX := 0\<rparr>"
  from assms have c: "0 \<le> CursorY x" "CursorY x < int (length ?L)" "0 \<le> CursorX x"
    by (auto simp: cursor_ok_def)
  have k: "key_enter p x = ScrollToCursor p b2"
    using assms(2) c clamp_runes [OF c(3), of ?rs]
    by (simp add: key_enter_def Let_def at_def set_at_def slice_to_def slice_from_def slice_def
        b2_def new_def nat_add_distrib if_distrib [of CursorX] cong: if_cong)
  have "length new = Suc (length ?L)"
    using c by (simp add: new_def)
  then have ok: "cursor_ok b2"
    using c by (simp add: cursor_ok_def b2_def)
  have "lines_ok b2" if "lines_ok x"
  proof -
    from that c have l: "LF \<notin> set (?L ! ?y)" by (simp add: lines_ok_def)
    from that have a: "\<forall>l \<in> set ?L. LF \<notin> set l" by (simp add: lines_ok_def)
    have "\<forall>l \<in> set ?L'. LF \<notin> set l"
      by (rule no_LF_update [OF a string_of_slice_no_LF(1) [OF l]])
    from no_LF_take_drop [OF this] no_LF_take_drop [OF a] string_of_slice_no_LF(2) [OF l]
    have "\<forall>l \<in> set new. LF \<notin> set l" by (auto simp: new_def)
    then show ?thesis by (simp add: lines_ok_def b2_def)
  qed
  with ScrollToCursor_ok [OF ok, of p] assms(2) show ?thesis
    by (auto simp: k b2_def lines_ok_def)
qed

lemma key_delete_inactive:
  assumes "cursor_ok x" "\<not> Active (Selection x)"
  shows "\<exists>y. key_delete x = Some y \<and> cursor_ok y \<and> \<not> Active (Selection y) \<and>
    (lines_ok x \<longrightarrow> lines_ok y)"
proof -
  let ?L = "Lines x" and ?y = "nat (CursorY x)"
  let ?l = "?L ! ?y"
  let ?rs = "runes ?l"
  from assms have c: "0 \<le> CursorY x" "CursorY x < int (length ?L)" "0 \<le> CursorX x"
    "CursorX x \<le> int (length ?l)"
    by (auto simp: cursor_ok_def)
  consider (char) "CursorX x < int (length ?rs)"
    | (merge) "\<not> CursorX x < int (length ?rs)" "CursorY x < int (length ?L) - 1"
    | (none) "\<not> CursorX x < int (length ?rs)" "\<not> CursorY x < int (length ?L) - 1"
    by blast
  then show ?thesis
  proof cases
    case char
    define new where
      "new = string_of (take (nat (CursorX x)) ?rs) @ string_of (drop (nat (CursorX x + 1)) ?rs)"
    have k: "key_delete x = Some (MarkDirty (x\<lparr>Lines := ?L[?y := new]\<rparr>))"
      using assms(2) c char
      by (simp add: key_delete_def Let_def at_def set_at_def slice_to_def slice_from_def slice_def
          new_def)
    have "min (nat (CursorX x)) (length ?rs) \<le> length new"
      using string_of_take_length [of "nat (CursorX x)" ?rs] by (simp add: new_def)
    with c char have x: "CursorX x \<le> int (length new)" by (auto simp: min_def split: if_splits)
    have "lines_ok (x\<lparr>Lines := ?L[?y := new]\<rparr>)" if "lines_ok x"
    proof -
      from that c have "LF \<notin> set ?l" by (simp add: lines_ok_def)
      then have "LF \<notin> set new" by (simp add: new_def string_of_slice_no_LF)
      with that show ?thesis
        using no_LF_update [of ?L new ?y] by (simp add: lines_ok_def)
    qed
    with x c assms(2) show ?thesis
      by (simp add: k cursor_ok_def)
  next
    case merge
    let ?L' = "?L[?y := ?l @ ?L ! Suc ?y]"
    define new where "new = take (Suc ?y) ?L' @ drop (Suc (Suc ?y)) ?L'"
    have k: "key_delete x = Some (MarkDirtyLines (CursorY x) (int (length new) - 1) (x\<lparr>Lines := new\<rparr>))"
      using assms(2) c merge
      by (simp add: key_delete_def Let_def at_def set_at_def slice_to_def slice_from_def slice_def
          new_def nat_add_distrib)
    have n: "?y < length new" "new ! ?y = ?l @ ?L ! Suc ?y"
      using c merge by (simp_all add: new_def nth_append)
    have "lines_ok (x\<lparr>Lines := new\<rparr>)" if "lines_ok x"
    proof -
      from that have a: "\<forall>l \<in> set ?L. LF \<notin> set l" by (simp add: lines_ok_def)
      from a c merge have "LF \<notin> set (?l @ ?L ! Suc ?y)" by simp
      then have "\<forall>l \<in> set ?L'. LF \<notin> set l"
        by (rule no_LF_update [OF a])
      from no_LF_take_drop [OF this] no_LF_take_drop [OF a] show ?thesis by (auto simp: lines_ok_def new_def)
    qed
    with n c assms(2) show ?thesis
      by (simp add: k cursor_ok_def)
  next
    case none
    with assms c show ?thesis
      by (simp add: key_delete_def Let_def at_def)
  qed
qed

lemma key_backspace_inactive:
  assumes "cursor_ok x" "\<not> Active (Selection x)"
  shows "\<exists>y. key_backspace p x = Some y \<and> cursor_ok y \<and> \<not> Active (Selection y) \<and>
    (lines_ok x \<longrightarrow> lines_ok y)"
proof -
  let ?L = "Lines x" and ?y = "nat (CursorY x)"
  let ?l = "?L ! ?y"
  let ?rs = "runes ?l"
  let ?X = "if CursorX x > int (length ?rs) then int (length ?rs) else CursorX x"
  from assms have c: "0 \<le> CursorY x" "CursorY x < int (length ?L)" "0 \<le> CursorX x"
    "CursorX x \<le> int (length ?l)"
    by (auto simp: cursor_ok_def)
  consider (char) "CursorX x > 0" "?X > 0"
    | (empty) "CursorX x > 0" "\<not> ?X > 0"
    | (merge) "\<not> CursorX x > 0" "CursorY x > 0"
    | (none) "\<not> CursorX x > 0" "\<not> CursorY x > 0"
    by blast
  then show ?thesis
  proof cases
    case char
    define new where
      "new = string_of (take (nat (?X - 1)) ?rs) @ string_of (drop (nat ?X) ?rs)"
    define b2 where "b2 = MarkDirty (x\<lparr>CursorX := ?X, Lines := ?L[?y := new], CursorX := ?X - 1\<rparr>)"
    have k: "key_backspace p x = ScrollToCursor p b2"
      using assms(2) c char
      by (simp add: key_backspace_def Let_def at_def set_at_def slice_to_def slice_from_def
          slice_def b2_def new_def if_distrib [of CursorX] cong: if_cong)
    have "min (nat (?X - 1)) (length ?rs) \<le> length new"
      using string_of_take_length [of "nat (?X - 1)" ?rs] by (simp add: new_def)
    with c char have "?X - 1 \<le> int (length new)" by (auto simp: min_def split: if_splits)
    with c char have ok: "cursor_ok b2" by (simp add: cursor_ok_def b2_def)
    have "lines_ok b2" if "lines_ok x"
    proof -
      from that c have "LF \<notin> set ?l" by (simp add: lines_ok_def)
      then have "LF \<notin> set new" by (simp add: new_def string_of_slice_no_LF)
      with that show ?thesis
        using no_LF_update [of ?L new ?y] by (simp add: lines_ok_def b2_def)
    qed
    with k ok assms(2) show ?thesis
      by (intro scroll_after [of _ p b2]) (simp_all add: b2_def)
  next
    case empty
    define b2 where "b2 = x\<lparr>CursorX := ?X\<rparr>"
    have k: "key_backspace p x = ScrollToCursor p b2"
      using assms(2) c empty
      by (simp add: key_backspace_def Let_def at_def b2_def if_distrib [of CursorX] cong: if_cong)
    from c empty have ok: "cursor_ok b2" by (auto simp: cursor_ok_def b2_def split: if_splits)
    have "lines_ok x \<longrightarrow> lines_ok b2" by (simp add: lines_ok_def b2_def)
    with k ok assms(2) show ?thesis
      by (intro scroll_after [of _ p b2]) (simp_all add: b2_def)
  next
    case merge
    let ?prev = "?L ! nat (CursorY x - 1)"
    let ?L' = "?L[nat (CursorY x - 1) := ?prev @ ?l]"
    define new where "new = take ?y ?L' @ drop (Suc ?y) ?L'"
    define b2 where
      "b2 = MarkDirtyLines (CursorY x - 1) (int (length new) - 1)
             (x\<lparr>CursorX := int (length (runes ?prev)), Lines := new, CursorY := CursorY x - 1\<rparr>)"
    have k: "key_backspace p x = ScrollToCursor p b2"
      using assms(2) c merge
      by (simp add: key_backspace_def Let_def at_def set_at_def slice_to_def slice_from_def
          slice_def b2_def new_def nat_add_distrib)
    have "nat (CursorY x - 1) < length new" "new ! nat (CursorY x - 1) = ?prev @ ?l"
      using c merge by (simp_all add: new_def nth_append nat_diff_distrib)
    moreover have "length (runes ?prev) \<le> length (?prev @ ?l)"
      using runes_length_le [of ?prev] by simp
    ultimately have ok: "cursor_ok b2"
      using c merge by (simp add: cursor_ok_def b2_def)
    have "lines_ok b2" if "lines_ok x"
    proof -
      from that have a: "\<forall>l \<in> set ?L. LF \<notin> set l" by (simp add: lines_ok_def)
      from a c merge have "LF \<notin> set (?prev @ ?l)" by simp
      then have "\<forall>l \<in> set ?L'. LF \<notin> set l"
        by (rule no_LF_update [OF a])
      from no_LF_take_drop [OF this] no_LF_take_drop [OF a] show ?thesis by (auto simp: lines_ok_def new_def b2_def)
    qed
    with k ok assms(2) show ?thesis
      by (intro scroll_after [of _ p b2]) (simp_all add: b2_def)
  next
    case none
    with assms c have "key_backspace p x = ScrollToCursor p x"
      by (simp add: key_backspace_def)
    with assms show ?thesis
      by (intro scroll_after [of _ p x]) simp_all
  qed
qed

lemma key_rune_active:
  "Active (Selection b) \<Longrightarrow> key_rune p r b = Option.bind (DeleteSelection b) (key_rune p r)"
  by (cases "DeleteSelection b") (auto simp: key_rune_def dest: DeleteSelection_inactive)

lemma key_enter_active:
  "Active (Selection b) \<Longrightarrow> key_enter p b = Option.bind (DeleteSelection b) (key_enter p)"
  by (cases "DeleteSelection b") (auto simp: key_enter_def dest: DeleteSelection_inactive)

lemma key_rune_ok:
  assumes "cursor_ok b" "selection_ok b"
  shows "\<exists>y. key_rune p r b = Some y \<and> cursor_ok y \<and> \<not> Active (Selection y) \<and>
    (lines_ok b \<and> r \<noteq> 10 \<longrightarrow> lines_ok y)"
proof (cases "Active (Selection b)")
  case True
  from DeleteSelection_ok [OF True assms(2)] obtain x where
    "DeleteSelection b = Some x" "cursor_ok x" "\<not> Active (Selection x)"
    "lines_ok b \<longrightarrow> lines_ok x" by blast
  with key_rune_inactive [of x p r] True show ?thesis
    by (auto simp: key_rune_active)
next
  case False
  with assms key_rune_inactive show ?thesis by blast
qed

lemma key_enter_ok:
  assumes "cursor_ok b" "selection_ok b"
  shows "\<exists>y. key_enter p b = Some y \<and> cursor_ok y \<and> \<not> Active (Selection y) \<and>
    (lines_ok b \<longrightarrow> lines_ok y)"
proof (cases "Active (Selection b)")
  case True
  from DeleteSelection_ok [OF True assms(2)] obtain x where
    "DeleteSelection b = Some x" "cursor_ok x" "\<not> Active (Selection x)"
    "lines_ok b \<longrightarrow> lines_ok x" by blast
  with key_enter_inactive [of x p] True show ?thesis
    by (auto simp: key_enter_active)
next
  case False
  with assms key_enter_inactive show ?thesis by blast
qed

lemma key_backspace_ok:
  assumes "cursor_ok b" "selection_ok b"
  shows "\<exists>y. key_backspace p b = Some y \<and> cursor_ok y \<and> \<not> Active (Selection y) \<and>
    (lines_ok b \<longrightarrow> lines_ok y)"
proof (cases "Active (Selection b)")
  case True
  from DeleteSelection_ok [OF True assms(2)] obtain x where
    x: "DeleteSelection b = Some x" "cursor_ok x" "\<not> Active (Selection x)"
    "lines_ok b \<longrightarrow> lines_ok x" by blast
  from x(1) True have "key_backspace p b = ScrollToCursor p x"
    by (simp add: key_backspace_def)
  from scroll_after [OF this x(2,3,4)] show ?thesis .
next
  case False
  with assms key_backspace_inactive show ?thesis by blast
qed

lemma key_delete_ok:
  assumes "cursor_ok b" "selection_ok b"
  shows "\<exists>y. key_delete b = Some y \<and> cursor_ok y \<and> \<not> Active (Selection y) \<and>
    (lines_ok b \<longrightarrow> lines_ok y)"
proof (cases "Active (Selection b)")
  case True
  with DeleteSelection_ok [OF True assms(2)] show ?thesis
    by (simp add: key_delete_def)
next
  case False
  with assms key_delete_inactive show ?thesis by blast
qed

lemma key_tab_ok:
  assumes "cursor_ok b" "selection_ok b"
  shows "\<exists>y. key_tab b = Some y \<and> cursor_ok y \<and> \<not> Active (Selection y) \<and>
    (lines_ok b \<longrightarrow> lines_ok y)"
proof -
  from delete_if_active_ok [OF assms] obtain x where
    x: "(if Active (Selection b) then DeleteSelection b else Some b) = Some x" "cursor_ok x"
    "\<not> Active (Selection x)" "lines_ok b \<longrightarrow> lines_ok x" by blast
  from InsertText_ok [OF x(2), of "[CHR 0x09]"] x show ?thesis
    by (auto simp: key_tab_def)
qed

lemma key_ctrl_v_ok:
  assumes "cursor_ok b" "selection_ok b"
  shows "\<exists>y. key_ctrl_v t b = Some y \<and> cursor_ok y \<and> selection_ok y \<and>
    (lines_ok b \<longrightarrow> lines_ok y)"
proof (cases "t = []")
  case True
  with assms show ?thesis by (simp add: key_ctrl_v_def)
next
  case False
  from delete_if_active_ok [OF assms] obtain x where
    x: "(if Active (Selection b) then DeleteSelection b else Some b) = Some x" "cursor_ok x"
    "\<not> Active (Selection x)" "lines_ok b \<longrightarrow> lines_ok x" by blast
  from InsertText_ok [OF x(2), of t] x False show ?thesis
    by (auto simp: key_ctrl_v_def selection_ok_def)
qed

lemma key_ctrl_x_ok:
  assumes "cursor_ok b" "selection_ok b"
  shows "\<exists>y. key_ctrl_x b = Some y \<and> cursor_ok y \<and> selection_ok y \<and>
    (lines_ok b \<longrightarrow> lines_ok y)"
proof (cases "Active (Selection b)")
  case True
  from GetSelectedText_ok [OF True assms(2)] DeleteSelection_ok [OF True assms(2)] True
  show ?thesis by (auto simp: key_ctrl_x_def selection_ok_def)
next
  case False
  with assms show ?thesis by (simp add: key_ctrl_x_def)
qed

lemma HandleKey_ok:
  assumes "cursor_ok (Buf e)" "selection_ok (Buf e)" "SearchMatches e = []"
  shows "\<exists>e'. HandleKey k e = Some e' \<and> cursor_ok (Buf e') \<and> selection_ok (Buf e') \<and>
    (lines_ok (Buf e) \<and> k \<noteq> KeyRune 10 \<longrightarrow> lines_ok (Buf e'))"
proof (cases k)
  case KeyEnter
  with key_enter_ok [OF assms(1,2), of "ThePane e"] show ?thesis
    by (auto simp: with_buf_def selection_ok_def)
next
  case KeyBackspace
  with key_backspace_ok [OF assms(1,2), of "ThePane e"] show ?thesis
    by (auto simp: with_buf_def selection_ok_def)
next
  case KeyDelete
  with key_delete_ok [OF assms(1,2)] show ?thesis
    by (auto simp: with_buf_def selection_ok_def)
next
  case KeyTab
  with key_tab_ok [OF assms(1,2)] show ?thesis
    by (auto simp: with_buf_def selection_ok_def)
next
  case (KeyRune r)
  with key_rune_ok [OF assms(1,2), of "ThePane e" r] assms(3) show ?thesis
    by (auto simp: with_buf_def selection_ok_def)
next
  case (KeyCtrlV t)
  with key_ctrl_v_ok [OF assms(1,2), of t] show ?thesis
    by (auto simp: with_buf_def)
next
  case KeyCtrlX
  with key_ctrl_x_ok [OF assms(1,2)] show ?thesis
    by (auto simp: with_buf_def)
qed

section \<open>The line store is never empty\<close>

lemma DeleteSelection_nonempty:
  "DeleteSelection b = Some b' \<Longrightarrow> 1 \<le> length (Lines b) \<Longrightarrow> 1 \<le> length (Lines b')"
  by (auto simp: DeleteSelection_def Let_def split: if_splits prod.splits Option.bind_splits)

lemma InsertText_nonempty:
  "InsertText t b = Some b' \<Longrightarrow> 1 \<le> length (Lines b')"
  by (auto simp: InsertText_def Let_def set_at_Some_iff split: if_splits Option.bind_splits)

lemma key_enter_nonempty:
  "key_enter p b = Some b' \<Longrightarrow> 1 \<le> length (Lines b')"
  unfolding key_enter_def Let_def
  by (auto split: Option.bind_splits dest!: ScrollToCursor_fields(1))

lemma key_backspace_nonempty:
  assumes "key_backspace p b = Some b'" "1 \<le> length (Lines b)"
  shows "1 \<le> length (Lines b')"
proof -
  from assms(1) obtain b1 where
    b1: "(if Active (Selection b) then DeleteSelection b
        else if CursorX b > 0 then do {
          line \<leftarrow> at (Lines b) (CursorY b);
          let rs = runes line;
          let buf = (if CursorX b > int (length rs) then b\<lparr>CursorX := int (length rs)\<rparr> else b);
          if CursorX buf > 0 then do {
            h \<leftarrow> slice_to rs (CursorX buf - 1);
            t \<leftarrow> slice_from rs (CursorX buf);
            ls \<leftarrow> set_at (Lines buf) (CursorY buf) (string_of h @ string_of t);
            Some (MarkDirty (buf\<lparr>Lines := ls, CursorX := CursorX buf - 1\<rparr>))
          }
          else Some buf
        }
        else if CursorY b > 0 then do {
          prev \<leftarrow> at (Lines b) (CursorY b - 1);
          let buf = b\<lparr>CursorX := int (length (runes prev))\<rparr>;
          cur \<leftarrow> at (Lines buf) (CursorY buf);
          ls \<leftarrow> set_at (Lines buf) (CursorY buf - 1) (prev @ cur);
          pre \<leftarrow> slice_to ls (CursorY buf);
          post \<leftarrow> slice_from ls (CursorY buf + 1);
          let buf = buf\<lparr>Lines := pre @ post, CursorY := CursorY buf - 1\<rparr>;
          Some (MarkDirtyLines (CursorY buf) (int (length (Lines buf)) - 1) buf)
        }
        else Some b) = Some b1" and s: "ScrollToCursor p b1 = Some b'"
    unfolding key_backspace_def by (auto split: Option.bind_splits)
  from b1 assms(2) have "1 \<le> length (Lines b1)"
    by (auto simp: Let_def set_at_Some_iff slice_to_Some_iff slice_from_Some_iff at_Some_iff
        dest: DeleteSelection_nonempty split: if_splits Option.bind_splits)
  with s show ?thesis by (simp add: ScrollToCursor_fields)
qed

lemma key_delete_nonempty:
  "key_delete b = Some b' \<Longrightarrow> 1 \<le> length (Lines b) \<Longrightarrow> 1 \<le> length (Lines b')"
  unfolding key_delete_def Let_def
  by (auto simp: set_at_Some_iff slice_to_Some_iff slice_from_Some_iff at_Some_iff
      dest: DeleteSelection_nonempty split: if_splits Option.bind_splits)

lemma key_tab_nonempty:
  "key_tab b = Some b' \<Longrightarrow> 1 \<le> length (Lines b) \<Longrightarrow> 1 \<le> length (Lines b')"
  unfolding key_tab_def
  by (auto dest: DeleteSelection_nonempty InsertText_nonempty split: if_splits Option.bind_splits)

lemma key_rune_nonempty:
  "key_rune p r b = Some b' \<Longrightarrow> 1 \<le> length (Lines b')"
  unfolding key_rune_def Let_def
  by (auto simp: set_at_Some_iff at_Some_iff split: Option.bind_splits dest!: ScrollToCursor_fields(1))

lemma key_ctrl_v_nonempty:
  "key_ctrl_v t b = Some b' \<Longrightarrow> 1 \<le> length (Lines b) \<Longrightarrow> 1 \<le> length (Lines b')"
  unfolding key_ctrl_v_def
  by (auto dest: DeleteSelection_nonempty InsertText_nonempty split: if_splits Option.bind_splits)

lemma key_ctrl_x_nonempty:
  "key_ctrl_x b = Some b' \<Longrightarrow> 1 \<le> length (Lines b) \<Longrightarrow> 1 \<le> length (Lines b')"
  unfolding key_ctrl_x_def
  by (auto dest: DeleteSelection_nonempty split: if_splits Option.bind_splits)

lemma JumpToSearchMatch_Lines:
  "JumpToSearchMatch e = Some e' \<Longrightarrow> Lines (Buf e') = Lines (Buf e)"
  unfolding JumpToSearchMatch_def
  by (auto split: if_splits Option.bind_splits dest!: ScrollToCursor_fields(1))

lemma HandleKey_nonempty:
  "HandleKey k e = Some e' \<Longrightarrow> 1 \<le> length (Lines (Buf e)) \<Longrightarrow> 1 \<le> length (Lines (Buf e'))"
  by (cases k)
    (auto simp: with_buf_def
      dest: key_enter_nonempty key_backspace_nonempty key_delete_nonempty key_tab_nonempty
        key_rune_nonempty key_ctrl_v_nonempty key_ctrl_x_nonempty JumpToSearchMatch_Lines
      split: if_splits)

text \<open>
  C8. A new buffer holds one empty line. Loading a file always returns, and the buffer
  it returns holds at least one line (one empty line for an empty file). Deleting the
  selection, inserting text and every key that changes the text, among them the
  backspace and the delete key that merge two lines, leave at least one line in a
  buffer that had one. On a buffer whose cursor and selection are on its lines every
  such key returns.
\<close>

theorem line_store_never_empty:
  "Lines (NewBuffer st) = [[]] \<and>
   (\<exists>r. LoadFile env rd filename b = Some r) \<and>
   (\<forall>b'. LoadFile env rd filename b = Some (Inr b') \<longrightarrow> 1 \<le> length (Lines b')) \<and>
   (\<forall>b'. LoadFile env (Read []) filename b = Some (Inr b') \<longrightarrow> Lines b' = [[]]) \<and>
   (\<forall>b'. 1 \<le> length (Lines b) \<and> DeleteSelection b = Some b' \<longrightarrow> 1 \<le> length (Lines b')) \<and>
   (\<forall>b'. InsertText t b = Some b' \<longrightarrow> 1 \<le> length (Lines b')) \<and>
   (\<forall>e'. 1 \<le> length (Lines (Buf e)) \<and> HandleKey k e = Some e' \<longrightarrow> 1 \<le> length (Lines (Buf e'))) \<and>
   (cursor_ok (Buf e) \<and> selection_ok (Buf e) \<and> SearchMatches e = [] \<longrightarrow>
      (\<exists>e'. HandleKey k e = Some e'))"
proof -
  have "\<exists>r. LoadFile env rd filename b = Some r"
    by (rule LoadFile_total)
  moreover have "Lines b' = [[]]" if "LoadFile env (Read []) filename b = Some (Inr b')" for b'
    using that LoadFile_Read [of env "[]" filename b] by auto
  moreover have "\<exists>e'. HandleKey k e = Some e'"
    if "cursor_ok (Buf e) \<and> selection_ok (Buf e) \<and> SearchMatches e = []"
    using that HandleKey_ok [of e k] by blast
  ultimately show ?thesis
    using LoadFile_nonempty DeleteSelection_nonempty InsertText_nonempty HandleKey_nonempty
    by (simp add: NewBuffer_def) blast
qed

theorem line_store_never_empty_witness:
  "1 \<le> length (Lines (Buf merge_example)) \<and> cursor_ok (Buf merge_example) \<and>
   selection_ok (Buf merge_example) \<and> SearchMatches merge_example = [] \<and>
   map_option (\<lambda>e. Lines (Buf e)) (HandleKey KeyBackspace merge_example) = Some [''abcd''] \<and>
   (\<exists>e'. HandleKey KeyBackspace merge_example = Some e' \<and> 1 \<le> length (Lines (Buf e'))) \<and>
   1 \<le> length (Lines selection_example) \<and>
   (\<exists>b'. DeleteSelection selection_example = Some b' \<and> 1 \<le> length (Lines b')) \<and>
   (\<exists>b'. LoadFile example_chroma (Read []) ''f'' (NewBuffer None) = Some (Inr b') \<and>
      Lines b' = [[]] \<and> 1 \<le> length (Lines b'))"
proof -
  have h: "1 \<le> length (Lines (Buf merge_example))" "cursor_ok (Buf merge_example)"
    "selection_ok (Buf merge_example)" "SearchMatches merge_example = []"
    by (simp_all add: merge_example_def example_editor_def example_buffer_def NewBuffer_def
        cursor_ok_def selection_ok_def)
  note t = line_store_never_empty [where env = example_chroma and rd = "Read []" and filename = "''f''"
      and b = "NewBuffer None" and e = merge_example and k = KeyBackspace]
  from t h obtain e' where e': "HandleKey KeyBackspace merge_example = Some e'" by blast
  with t h have k: "\<exists>e'. HandleKey KeyBackspace merge_example = Some e' \<and> 1 \<le> length (Lines (Buf e'))"
    by blast
  have v: "map_option (\<lambda>e. Lines (Buf e)) (HandleKey KeyBackspace merge_example) = Some [''abcd'']"
    by code_simp
  have s: "1 \<le> length (Lines selection_example)"
    by (simp add: selection_example_def example_buffer_def)
  have "Active (Selection selection_example)" "selection_ok selection_example"
    by (simp_all add: selection_example_def example_buffer_def selection_ok_def)
  then obtain b1 where b1: "DeleteSelection selection_example = Some b1"
    using DeleteSelection_ok by blast
  with s line_store_never_empty [where b = selection_example]
  have d: "\<exists>b'. DeleteSelection selection_example = Some b' \<and> 1 \<le> length (Lines b')"
    by blast
  from t obtain r where r: "LoadFile example_chroma (Read []) ''f'' (NewBuffer None) = Some r"
    by blast
  then obtain b' where "r = Inr b'"
    by (cases r) (auto simp: LoadFile_def Let_def)
  with r t have l: "\<exists>b'. LoadFile example_chroma (Read []) ''f'' (NewBuffer None) = Some (Inr b') \<and>
      Lines b' = [[]] \<and> 1 \<le> length (Lines b')"
    by auto
  from h k v s d l show ?thesis by simp
qed

section \<open>Columns in bytes and columns in runes\<close>

text \<open>
  C2. \<^verbatim>\<open>InsertText\<close> cuts the line at the byte with the number of the cursor column, and
  the search records the byte offset of a match, while the keys that type and delete a
  character count the column in runes. On the line \<open>U+00E9\<close> with the cursor after
  that character (column 1), inserting \<open>x\<close> puts it between the two bytes of the
  character, where a splice by runes and the key that types \<open>x\<close> both put it after
  the character; the tabulator key, which inserts through \<^verbatim>\<open>InsertText\<close>, does the
  same. A match of \<open>ab\<close> after that character is recorded at column 2, which is its
  second rune.
\<close>

theorem InsertText_splices_bytes:
  "map_option Lines (InsertText ''x'' ((example_buffer [e_acute])\<lparr>CursorX := 1\<rparr>)) =
     Some [[CHR 0xC3, CHR ''x'', CHR 0xA9]] \<and>
   rune_splice e_acute 1 ''x'' = [CHR 0xC3, CHR 0xA9, CHR ''x''] \<and>
   map_option Lines (key_rune example_pane 0x78 ((example_buffer [e_acute])\<lparr>CursorX := 1\<rparr>)) =
     Some [[CHR 0xC3, CHR 0xA9, CHR ''x'']] \<and>
   map_option (\<lambda>e. Lines (Buf e))
     (HandleKey KeyTab ((example_editor [e_acute] [])\<lparr>Buf := (example_buffer [e_acute])\<lparr>CursorX := 1\<rparr>\<rparr>)) =
     Some [[CHR 0xC3, CHR 0x09, CHR 0xA9]] \<and>
   map_option (\<lambda>e. map MCol (SearchMatches e)) (ExecuteSearch (example_editor [e_acute @ ''ab''] ''ab'')) =
     Some [2] \<and>
   length (runes (take 2 (e_acute @ ''ab''))) = 1"
  by code_simp

text \<open>
  C3. Pasting the character \<open>U+00E9\<close> into the empty buffer leaves the cursor at
  column 2 of a line that is one character long: \<^verbatim>\<open>InsertText\<close> advances the column by
  the number of bytes.
\<close>

theorem paste_cursor_past_line_end:
  "cursor_in_line (Buf (example_editor [[]] [])) \<and>
   map_option (\<lambda>e. (Lines (Buf e), CursorX (Buf e), CursorY (Buf e)))
     (HandleKey (KeyCtrlV e_acute) (example_editor [[]] [])) = Some ([e_acute], 2, 0) \<and>
   length (runes e_acute) = 1 \<and>
   map_option (\<lambda>e. cursor_in_line (Buf e)) (HandleKey (KeyCtrlV e_acute) (example_editor [[]] [])) =
     Some False"
  by code_simp

section \<open>Refreshing the highlight cache\<close>

lemma clear_loop_length [simp]: "length (clear_loop i e c) = length c"
proof (induction i e c rule: clear_loop.induct)
  case (1 i e c)
  then show ?case by (subst clear_loop.simps) auto
qed

lemma clear_loop_outside:
  "j < i \<or> e < int j \<Longrightarrow> clear_loop i e c ! j = c ! j"
proof (induction i e c rule: clear_loop.induct)
  case (1 i e c)
  show ?case
  proof (cases "int i \<le> e \<and> i < length c")
    case True
    with "1.prems" have "j \<noteq> i" by auto
    with "1.IH" [OF True] "1.prems" True show ?thesis
      by (subst clear_loop.simps) auto
  next
    case False
    then show ?thesis by (subst clear_loop.simps) auto
  qed
qed

lemma add_part_frame:
  assumes "add_part sty part (c, ln, col) = (c', ln', col')"
  shows "length c' = length c" "ln' = ln" "j \<noteq> ln \<Longrightarrow> c' ! j = c ! j"
  using assms by (auto simp: add_part_def split: if_splits)

lemma fold_parts_frame:
  assumes "fold (\<lambda>part (cache, lineNum, col). add_part sty part (cache, lineNum + 1, 0)) ps (c, ln, col) = (c', ln', col')"
  shows "length c' = length c \<and> ln' = ln + length ps \<and> (\<forall>j. j \<le> ln \<or> ln' < j \<longrightarrow> c' ! j = c ! j)"
  using assms
proof (induction ps arbitrary: c ln col)
  case Nil
  then show ?case by simp
next
  case (Cons p ps)
  obtain c1 ln1 col1 where s1: "add_part sty p (c, ln + 1, 0) = (c1, ln1, col1)"
    by (cases "add_part sty p (c, ln + 1, 0)") auto
  note f = add_part_frame [OF s1]
  from Cons.prems s1 have "fold (\<lambda>part (cache, lineNum, col). add_part sty part (cache, lineNum + 1, 0)) ps (c1, ln1, col1) = (c', ln', col')"
    by simp
  from Cons.IH [OF this] f show ?case by auto
qed

lemma walk_parts_frame:
  assumes "walk_parts sty ps (c, ln, col) = (c', ln', col')" "ps \<noteq> []"
  shows "length c' = length c \<and> ln' = ln + (length ps - 1) \<and> (\<forall>j. j < ln \<or> ln' < j \<longrightarrow> c' ! j = c ! j)"
proof -
  from assms(2) obtain p rest where ps: "ps = p # rest" by (cases ps) auto
  obtain c1 ln1 col1 where s1: "add_part sty p (c, ln, col) = (c1, ln1, col1)"
    by (cases "add_part sty p (c, ln, col)") auto
  note f = add_part_frame [OF s1]
  from assms(1) ps s1 have "fold (\<lambda>part (cache, lineNum, col). add_part sty part (cache, lineNum + 1, 0)) rest (c1, ln1, col1) = (c', ln', col')"
    by simp
  from fold_parts_frame [OF this] f ps show ?thesis by auto
qed

lemma walk_tokens_frame:
  assumes "walk_tokens st toks (c, ln, col) = (c', ln', col')"
  shows "length c' = length c \<and> ln' = ln + count_list (concat (map snd toks)) LF \<and>
    (\<forall>j. j < ln \<or> ln' < j \<longrightarrow> c' ! j = c ! j)"
  using assms
proof (induction toks arbitrary: c ln col)
  case Nil
  then show ?case by (simp add: walk_tokens_def)
next
  case (Cons tok toks)
  obtain ty val where tok: "tok = (ty, val)" by (cases tok) auto
  obtain c1 ln1 col1 where s1: "walk_parts (token_style st ty) (Split val) (c, ln, col) = (c1, ln1, col1)"
    by (cases "walk_parts (token_style st ty) (Split val) (c, ln, col)") auto
  from walk_parts_frame [OF s1] have f: "length c1 = length c" "ln1 = ln + count_list val LF"
    "\<forall>j. j < ln \<or> ln1 < j \<longrightarrow> c1 ! j = c ! j"
    by (simp_all add: Split_length)
  from Cons.prems tok s1 have "walk_tokens st toks (c1, ln1, col1) = (c', ln', col')"
    by (simp add: walk_tokens_def)
  from Cons.IH [OF this] f tok show ?case by auto
qed

lemma extent_parts_Cons:
  "extent_parts (p # ps) = (if p = [] \<and> extent_parts ps = 0 then 0 else Suc (extent_parts ps))"
  by (simp add: extent_parts_def)

lemma extent_Split: "extent_parts (Split s) = extent s"
proof (induction s)
  case Nil
  then show ?case by (simp add: extent_def extent_parts_def)
next
  case (Cons c cs)
  obtain p ps where ps: "Split cs = p # ps" by (cases "Split cs") auto
  show ?case
  proof (cases "c = LF")
    case True
    with Cons show ?thesis
      by (simp add: extent_parts_Cons extent_def Let_def)
  next
    case False
    from Cons ps have e: "extent cs = (if p = [] \<and> extent_parts ps = 0 then 0 else Suc (extent_parts ps))"
      by (simp add: extent_parts_Cons)
    from False ps have "extent_parts (Split (c # cs)) = Suc (extent_parts ps)"
      by (simp add: extent_parts_Cons)
    moreover from False have "extent (c # cs) = Suc (count_list (strip_end (\<lambda>c. c = LF) cs) LF)"
      by (simp add: extent_def Let_def)
    moreover from e have "extent_parts ps = count_list (strip_end (\<lambda>c. c = LF) cs) LF"
      by (auto simp: extent_def Let_def split: if_splits)
    ultimately show ?thesis by simp
  qed
qed

lemma strip_end_append:
  "strip_end P (xs @ ys) = (if strip_end P ys = [] then strip_end P xs else xs @ strip_end P ys)"
  by (induction xs) auto

lemma count_strip_end_le: "count_list (strip_end P xs) a \<le> count_list xs a"
  by (induction xs) auto

lemma extent_le: "extent s \<le> Suc (count_list s LF)"
  using count_strip_end_le [of "\<lambda>c. c = LF" s LF] by (simp add: extent_def Let_def)

lemma extent_append:
  "extent (v @ r) = (if extent r = 0 then extent v else count_list v LF + extent r)"
  by (simp add: extent_def Let_def strip_end_append)

lemma strip_end_replicate: "strip_end P (replicate k x) = (if P x then [] else replicate k x)"
  by (induction k) auto

lemma extent_replicate_LF [simp]: "extent (replicate k LF) = 0"
  by (simp add: extent_def Let_def strip_end_replicate)

lemma extent_trailing_LF: "extent (s @ replicate k LF) = extent s"
  by (simp add: extent_append)

lemma fold_parts_extent:
  assumes "fold (\<lambda>part (cache, lineNum, col). add_part sty part (cache, lineNum + 1, 0)) ps (c, ln, col) = (c', ln', col')"
  shows "\<forall>j. j \<le> ln \<or> ln + extent_parts ps < j \<longrightarrow> c' ! j = c ! j"
  using assms
proof (induction ps arbitrary: c ln col)
  case Nil
  then show ?case by simp
next
  case (Cons p ps)
  obtain c1 ln1 col1 where s1: "add_part sty p (c, ln + 1, 0) = (c1, ln1, col1)"
    by (cases "add_part sty p (c, ln + 1, 0)") auto
  note f = add_part_frame [OF s1]
  from Cons.prems s1 have r: "fold (\<lambda>part (cache, lineNum, col). add_part sty part (cache, lineNum + 1, 0)) ps (c1, ln1, col1) = (c', ln', col')"
    by simp
  note ih = Cons.IH [OF r]
  show ?case
  proof (cases "p = [] \<and> extent_parts ps = 0")
    case True
    with s1 have "c1 = c" by (simp add: add_part_def)
    with ih f(2) True show ?thesis by auto
  next
    case False
    then have "extent_parts (p # ps) = Suc (extent_parts ps)" by (simp add: extent_parts_Cons)
    with ih f show ?thesis by auto
  qed
qed

lemma walk_parts_extent:
  assumes "walk_parts sty ps (c, ln, col) = (c', ln', col')"
  shows "\<forall>j. j < ln \<or> ln + extent_parts ps \<le> j \<longrightarrow> c' ! j = c ! j"
proof (cases ps)
  case Nil
  with assms show ?thesis by simp
next
  case (Cons p rest)
  obtain c1 ln1 col1 where s1: "add_part sty p (c, ln, col) = (c1, ln1, col1)"
    by (cases "add_part sty p (c, ln, col)") auto
  note f = add_part_frame [OF s1]
  from assms Cons s1 have r: "fold (\<lambda>part (cache, lineNum, col). add_part sty part (cache, lineNum + 1, 0)) rest (c1, ln1, col1) = (c', ln', col')"
    by simp
  note fr = fold_parts_extent [OF r]
  show ?thesis
  proof (cases "p = [] \<and> extent_parts rest = 0")
    case True
    with s1 have "c1 = c" by (simp add: add_part_def)
    with fr f(2) True show ?thesis by auto
  next
    case False
    then have "extent_parts ps = Suc (extent_parts rest)" by (simp add: Cons extent_parts_Cons)
    with fr f show ?thesis by auto
  qed
qed

lemma walk_tokens_extent:
  assumes "walk_tokens st toks (c, ln, col) = (c', ln', col')"
  shows "\<forall>j. j < ln \<or> ln + extent (concat (map snd toks)) \<le> j \<longrightarrow> c' ! j = c ! j"
  using assms
proof (induction toks arbitrary: c ln col)
  case Nil
  then show ?case by (simp add: walk_tokens_def)
next
  case (Cons tok toks)
  obtain ty val where tok: "tok = (ty, val)" by (cases tok) auto
  obtain c1 ln1 col1 where s1: "walk_parts (token_style st ty) (Split val) (c, ln, col) = (c1, ln1, col1)"
    by (cases "walk_parts (token_style st ty) (Split val) (c, ln, col)") auto
  from walk_parts_frame [OF s1] have ln1: "ln1 = ln + count_list val LF"
    by (simp add: Split_length)
  from walk_parts_extent [OF s1] have f1: "\<forall>j. j < ln \<or> ln + extent val \<le> j \<longrightarrow> c1 ! j = c ! j"
    by (simp add: extent_Split)
  from Cons.prems tok s1 have "walk_tokens st toks (c1, ln1, col1) = (c', ln', col')"
    by (simp add: walk_tokens_def)
  from Cons.IH [OF this] have ih:
    "\<forall>j. j < ln1 \<or> ln1 + extent (concat (map snd toks)) \<le> j \<longrightarrow> c' ! j = c1 ! j" .
  show ?case
  proof (cases "extent (concat (map snd toks)) = 0")
    case True
    with ih have "c' ! j = c1 ! j" for j by (cases "j < ln1") auto
    with f1 True tok show ?thesis by (simp add: extent_append)
  next
    case False
    have "c' ! j = c ! j" if "j < ln \<or> ln + (count_list val LF + extent (concat (map snd toks))) \<le> j" for j
    proof -
      from that ln1 have "j < ln1 \<or> ln1 + extent (concat (map snd toks)) \<le> j" by auto
      with ih have "c' ! j = c1 ! j" by blast
      moreover from that False extent_le [of val] have "j < ln \<or> ln + extent val \<le> j" by auto
      with f1 have "c1 ! j = c ! j" by blast
      ultimately show ?thesis by simp
    qed
    with False tok show ?thesis by (simp add: extent_append)
  qed
qed

lemma resized_length [simp]: "length (resized n cache) = n"
  by (auto simp: resized_def)

lemma resized_nth: "j < n \<Longrightarrow> resized n cache ! j = (if j < length cache then cache ! j else [])"
  by (auto simp: resized_def nth_append)

lemma GetStyleAt_spans:
  "GetStyleAt b (int j) col =
     Some (case find (\<lambda>t. col \<ge> Col t \<and> col < Col t + Len t) (cached_spans b j) of
             Some t \<Rightarrow> TStyle t | None \<Rightarrow> StyleDefault)"
  by (simp add: GetStyleAt_def cached_spans_def at_def)

lemma window_bounds:
  assumes "0 \<le> DirtyLineStart b" "DirtyLineStart b \<le> DirtyLineEnd b"
    "DirtyLineStart b < int (length (Lines b))" "window b = (lo, hi)"
  shows "0 \<le> lo" "lo \<le> hi" "hi < int (length (Lines b))"
  using assms by (auto simp: window_def)

lemma UpdateTokenCacheRange_eval:
  assumes "Lexer b = Some lx" "Style b = Some st" "window b = (lo, hi)"
    "0 \<le> lo" "lo \<le> hi + 1" "hi < int (length (Lines b))"
  shows "UpdateTokenCacheRange (DirtyLineStart b) (DirtyLineEnd b) b =
    Some (b\<lparr>TokenCache :=
      (case lx (window_text b) of
         None \<Rightarrow> clear_loop (nat lo) hi (resized (length (Lines b)) (TokenCache b))
       | Some toks \<Rightarrow> fst (walk_tokens st toks
           (clear_loop (nat lo) hi (resized (length (Lines b)) (TokenCache b)), nat lo, 0)))\<rparr>)"
proof -
  from assms(3) have lo: "lo = max 0 (DirtyLineStart b - 50)"
    and hi: "hi = min (int (length (Lines b)) - 1) (DirtyLineEnd b + 50)"
    by (simp_all add: window_def)
  have sl: "slice (Lines b) lo (hi + 1) = Some (take (nat (hi + 1) - nat lo) (drop (nat lo) (Lines b)))"
    using assms(4-6) by (simp add: slice_def)
  show ?thesis
    unfolding UpdateTokenCacheRange_def Let_def lo [symmetric] hi [symmetric]
    using assms(1,2) sl
    by (simp add: window_text_def assms(3) resized_def split: option.splits)
qed

lemma UpdateTokenCacheRange_no_lexer:
  "Lexer b = None \<or> Style b = None \<Longrightarrow> UpdateTokenCacheRange s e b = Some b"
  by (auto simp: UpdateTokenCacheRange_def split: option.splits)

lemma Join_window_extent:
  assumes "\<forall>l \<in> set ls. LF \<notin> set l"
  shows "extent (Join ls) \<le> length ls"
proof (cases "ls = []")
  case True
  then show ?thesis by (simp add: extent_def)
next
  case False
  with extent_le [of "Join ls"] count_LF_Join [OF assms] show ?thesis
    by (cases ls) auto
qed

text \<open>
  With a lexer that returns the text it is given, cut into tokens and possibly with
  line feeds added at the end, and with lines that hold no line feed, a refresh
  changes the cache of no line outside the window.
\<close>

lemma RefreshIfDirty_faithful_lexer:
  assumes "Dirty b" "0 \<le> DirtyLineStart b" "DirtyLineStart b \<le> DirtyLineEnd b"
    and "DirtyLineStart b < int (length (Lines b))"
    and "window b = (lo, hi)"
    and "\<forall>l \<in> set (Lines b). LF \<notin> set l"
    and "\<forall>lx toks. Lexer b = Some lx \<and> lx (window_text b) = Some toks \<longrightarrow>
           (\<exists>k. concat (map snd toks) = window_text b @ replicate k LF)"
  shows "\<exists>b'. RefreshIfDirty b = Some b' \<and>
    (\<forall>lx lx'. Lexer b = Some lx \<and> lx' (window_text b) = lx (window_text b) \<longrightarrow>
       RefreshIfDirty (b\<lparr>Lexer := Some lx'\<rparr>) = Some (b'\<lparr>Lexer := Some lx'\<rparr>)) \<and>
    (\<forall>j col. j < length (Lines b) \<and> (int j < lo \<or> hi < int j) \<longrightarrow>
       cached_spans b' j = cached_spans b j \<and>
       GetStyleAt b' (int j) col = GetStyleAt b (int j) col)"
proof -
  note wb = window_bounds [OF assms(2-5)]
  let ?n = "length (Lines b)"
  let ?c1 = "clear_loop (nat lo) hi (resized ?n (TokenCache b))"
  let ?reset = "\<lambda>b. b\<lparr>Dirty := False, DirtyLineStart := -1, DirtyLineEnd := -1\<rparr>"
  show ?thesis
  proof (cases "Lexer b = None \<or> Style b = None")
    case True
    then have r: "RefreshIfDirty b = Some (?reset b)"
      using assms(1,2) by (simp add: RefreshIfDirty_def UpdateTokenCacheRange_no_lexer)
    have "cached_spans (?reset b) j = cached_spans b j" for j
      by (simp add: cached_spans_def)
    moreover have "RefreshIfDirty (b\<lparr>Lexer := Some lx'\<rparr>) = Some ((?reset b)\<lparr>Lexer := Some lx'\<rparr>)"
      if "Lexer b = Some lx" for lx lx'
      using that True assms(1,2) by (simp add: RefreshIfDirty_def UpdateTokenCacheRange_no_lexer)
    ultimately show ?thesis
      using r by (simp add: GetStyleAt_spans)
  next
    case False
    then obtain lx st where ls: "Lexer b = Some lx" "Style b = Some st" by auto
    define cache where "cache = (\<lambda>l :: lexer. case l (window_text b) of
         None \<Rightarrow> ?c1
       | Some toks \<Rightarrow> fst (walk_tokens st toks (?c1, nat lo, 0)))"
    have u: "UpdateTokenCacheRange (DirtyLineStart b) (DirtyLineEnd b) b = Some (b\<lparr>TokenCache := cache lx\<rparr>)"
      using UpdateTokenCacheRange_eval [OF ls assms(5)] wb by (simp add: cache_def)
    have r: "RefreshIfDirty b = Some (?reset (b\<lparr>TokenCache := cache lx\<rparr>))"
      using assms(1,2) u by (simp add: RefreshIfDirty_def)
    have other: "RefreshIfDirty (b\<lparr>Lexer := Some lx'\<rparr>) =
        Some ((?reset (b\<lparr>TokenCache := cache lx\<rparr>))\<lparr>Lexer := Some lx'\<rparr>)"
      if "lx' (window_text b) = lx (window_text b)" for lx'
    proof -
      let ?b = "b\<lparr>Lexer := Some lx'\<rparr>"
      have w: "window ?b = (lo, hi)" "window_text ?b = window_text b"
        using assms(5) by (simp_all add: window_def window_text_def)
      have "UpdateTokenCacheRange (DirtyLineStart ?b) (DirtyLineEnd ?b) ?b =
          Some (?b\<lparr>TokenCache := cache lx'\<rparr>)"
        using UpdateTokenCacheRange_eval [of ?b lx' st lo hi] ls w wb
        by (simp add: cache_def cong: option.case_cong)
      moreover have "cache lx' = cache lx" using that by (simp add: cache_def)
      ultimately show ?thesis
        using assms(1,2) by (simp add: RefreshIfDirty_def)
    qed
    have len: "length (cache lx) = ?n"
    proof (cases "lx (window_text b)")
      case None
      then show ?thesis by (simp add: cache_def)
    next
      case (Some toks)
      obtain c' ln' col' where w: "walk_tokens st toks (?c1, nat lo, 0) = (c', ln', col')"
        by (cases "walk_tokens st toks (?c1, nat lo, 0)") auto
      from walk_tokens_frame [OF w] Some w show ?thesis by (simp add: cache_def)
    qed
    have frame: "cache lx ! j = cached_spans b j" if j: "j < ?n" "int j < lo \<or> hi < int j" for j
    proof -
      have c1: "?c1 ! j = cached_spans b j"
        using j wb by (subst clear_loop_outside) (auto simp: resized_nth cached_spans_def)
      show ?thesis
      proof (cases "lx (window_text b)")
        case None
        with c1 show ?thesis by (simp add: cache_def)
      next
        case (Some toks)
        obtain c' ln' col' where w: "walk_tokens st toks (?c1, nat lo, 0) = (c', ln', col')"
          by (cases "walk_tokens st toks (?c1, nat lo, 0)") auto
        from assms(7) ls Some obtain k where
          k: "concat (map snd toks) = window_text b @ replicate k LF" by blast
        let ?ls = "take (nat (hi + 1) - nat lo) (drop (nat lo) (Lines b))"
        have "\<forall>l \<in> set ?ls. LF \<notin> set l"
          using assms(6) by (auto dest!: in_set_takeD in_set_dropD)
        from Join_window_extent [OF this] have "extent (window_text b) \<le> length ?ls"
          by (simp add: window_text_def assms(5))
        also have "length ?ls = nat (hi + 1) - nat lo"
          using wb by simp
        finally have "nat lo + extent (concat (map snd toks)) \<le> nat (hi + 1)"
          using wb by (simp add: k extent_trailing_LF)
        with j wb have "j < nat lo \<or> nat lo + extent (concat (map snd toks)) \<le> j"
          by auto
        with walk_tokens_extent [OF w] have "c' ! j = ?c1 ! j" by blast
        with c1 Some w show ?thesis by (simp add: cache_def)
      qed
    qed
    have "cached_spans (?reset (b\<lparr>TokenCache := cache lx\<rparr>)) j = cached_spans b j"
      if "j < ?n" "int j < lo \<or> hi < int j" for j
      using frame [OF that] that(1) len by (simp add: cached_spans_def)
    with r other ls show ?thesis
      by (simp add: GetStyleAt_spans)
  qed
qed

subsection \<open>The spans a refresh stores\<close>

















end
